theory Spec2Isabelle
  imports Main
begin

section \<open>JavaScript values handled by the node editor\<close>

text \<open>
  The editor of \<^verbatim>\<open>src/features/modals/NodeModal/index.tsx\<close> works on values decoded
  by \<^verbatim>\<open>JSON.parse\<close>, on the selected node's rows and on its path.

  \<^item> A JSON scalar is \<^verbatim>\<open>null\<close>, a boolean, a number or a string. Numbers are the
    integers a double holds exactly (absolute value at most \<open>2^53 - 1\<close>), which JavaScript
    prints in plain decimal; strings are lists of code units below 256.
  \<^item> An array is a list of slots; a slot is \<open>None\<close> for a hole (an index below
    \<^verbatim>\<open>length\<close> that was never written), which \<^verbatim>\<open>JSON.stringify\<close> prints as
    \<^verbatim>\<open>null\<close> and for which the \<^verbatim>\<open>in\<close> operator is false.
  \<^item> An object is the list of its own properties in JavaScript's own-property order:
    array-index keys in ascending numeric order, then the other keys in insertion order.
\<close>

datatype scalar = SNull | SBool bool | SNum int | SStr string

datatype jsval =
    Scalar scalar
  | Arr "jsval option list"
  | Obj "(string \<times> jsval) list"

abbreviation JNull :: jsval where "JNull \<equiv> Scalar SNull"
abbreviation JBool :: "bool \<Rightarrow> jsval" where "JBool b \<equiv> Scalar (SBool b)"
abbreviation JNum :: "int \<Rightarrow> jsval" where "JNum n \<equiv> Scalar (SNum n)"
abbreviation JStr :: "string \<Rightarrow> jsval" where "JStr s \<equiv> Scalar (SStr s)"

text \<open>A path selector is a string (object key) or a number (array index).\<close>

datatype selector = SKey string | SIdx nat

text \<open>
  What a JavaScript computation does: it returns a value, throws, or leaves the fragment of
  JavaScript modelled here (\<open>Unmodelled\<close>). The last outcome is given wherever the result
  depends on the host's built-in objects or on floating point:
  \<^item> a number literal with a fraction or an exponent, \<^verbatim>\<open>-0\<close>, an integer beyond
    \<open>2^53 - 1\<close>, a \<^verbatim>\<open>\u\<close> escape of a code unit above 255;
  \<^item> a key that an object does not own but inherits from \<^verbatim>\<open>Object.prototype\<close>, where the
    code would go on inside the host's objects;
  \<^item> a key of an array that is not an array index (\<^verbatim>\<open>length\<close>, the methods of
    \<^verbatim>\<open>Array.prototype\<close>, any other name);
  \<^item> a number selector beyond \<open>2^53 - 1\<close>, which JavaScript may print in exponent notation.
\<close>

datatype exn = TypeError | SyntaxError

datatype 'a outcome = Returns 'a | Throws exn | Unmodelled

definition and_then :: "'a outcome \<Rightarrow> ('a \<Rightarrow> 'b outcome) \<Rightarrow> 'b outcome" where
  "and_then r f = (case r of Returns x \<Rightarrow> f x | Throws e \<Rightarrow> Throws e | Unmodelled \<Rightarrow> Unmodelled)"

subsection \<open>Characters and decimal numerals\<close>

abbreviation DQUOTE :: char where "DQUOTE \<equiv> CHR 0x22"
abbreviation BSLASH :: char where "BSLASH \<equiv> CHR 0x5C"
abbreviation NEWLINE :: char where "NEWLINE \<equiv> CHR 0x0A"

definition digit_char :: "nat \<Rightarrow> char" where
  "digit_char d = ''0123456789abcdef'' ! d"

definition digit_val :: "char \<Rightarrow> nat" where
  "digit_val c = of_char c - 48"

definition is_digit :: "char \<Rightarrow> bool" where
  "is_digit c = (c \<in> set ''0123456789'')"

text \<open>\<^verbatim>\<open>Number::toString\<close> on a non-negative integer.\<close>

fun show_nat :: "nat \<Rightarrow> string" where
  "show_nat n = (if n < 10 then [digit_char n] else show_nat (n div 10) @ [digit_char (n mod 10)])"

declare show_nat.simps [simp del]

definition show_int :: "int \<Rightarrow> string" where
  "show_int i = (if i < 0 then CHR ''-'' # show_nat (nat (- i)) else show_nat (nat i))"

definition nat_of_digits :: "string \<Rightarrow> nat" where
  "nat_of_digits ds = foldl (\<lambda>acc c. 10 * acc + digit_val c) 0 ds"

text \<open>
  An array index is the canonical decimal numeral of an integer below \<open>2^32 - 1\<close>.
  \<open>index_of_key\<close> is that integer.
\<close>

definition index_of_key :: "string \<Rightarrow> nat option" where
  "index_of_key k =
     (if k \<noteq> [] \<and> list_all is_digit k \<and> (k = ''0'' \<or> hd k \<noteq> CHR ''0'') \<and> int (nat_of_digits k) < 4294967295
      then Some (nat_of_digits k) else None)"

subsection \<open>Own properties of an object\<close>

type_synonym props = "(string \<times> jsval) list"

text \<open>
  \<open>comes_before k k'\<close>: a new key \<open>k\<close> is placed before the existing key \<open>k'\<close>. Only an array
  index moves forward: before every key that is not an index and before every greater index.
\<close>

definition comes_before :: "string \<Rightarrow> string \<Rightarrow> bool" where
  "comes_before k k' =
     (case index_of_key k of
        None \<Rightarrow> False
      | Some i \<Rightarrow> (case index_of_key k' of None \<Rightarrow> True | Some j \<Rightarrow> i < j))"

fun insert_prop :: "string \<Rightarrow> jsval \<Rightarrow> props \<Rightarrow> props" where
  "insert_prop k v [] = [(k, v)]"
| "insert_prop k v ((k', v') # ps) =
     (if comes_before k k' then (k, v) # (k', v') # ps else (k', v') # insert_prop k v ps)"

fun replace_prop :: "string \<Rightarrow> jsval \<Rightarrow> props \<Rightarrow> props" where
  "replace_prop k v [] = []"
| "replace_prop k v ((k', v') # ps) =
     (if k' = k then (k, v) # ps else (k', v') # replace_prop k v ps)"

text \<open>
  \<^verbatim>\<open>CreateDataProperty\<close>, and \<^verbatim>\<open>o[k] = v\<close> where no setter is inherited: an own property
  keeps its place and takes the new value, a new one enters in own-property order.
\<close>

definition put_prop :: "string \<Rightarrow> jsval \<Rightarrow> props \<Rightarrow> props" where
  "put_prop k v ps = (if k \<in> fst ` set ps then replace_prop k v ps else insert_prop k v ps)"

text \<open>
  \<^verbatim>\<open>a[i] = v\<close> on an array: within the length the slot is overwritten, beyond it the array
  grows and the slots in between are holes.
\<close>

definition write_index :: "nat \<Rightarrow> jsval \<Rightarrow> jsval option list \<Rightarrow> jsval option list" where
  "write_index i v xs =
     (if i < length xs then xs[i := Some v]
      else xs @ replicate (i - length xs) None @ [Some v])"

section \<open>\<^verbatim>\<open>JSON.stringify(value, null, 2)\<close>\<close>

definition hex2 :: "nat \<Rightarrow> string" where
  "hex2 n = [digit_char (n div 16), digit_char (n mod 16)]"

definition escape_char :: "char \<Rightarrow> string" where
  "escape_char c =
     (if c = DQUOTE then [BSLASH, DQUOTE]
      else if c = BSLASH then [BSLASH, BSLASH]
      else if c = CHR 0x08 then [BSLASH, CHR ''b'']
      else if c = CHR 0x09 then [BSLASH, CHR ''t'']
      else if c = CHR 0x0A then [BSLASH, CHR ''n'']
      else if c = CHR 0x0C then [BSLASH, CHR ''f'']
      else if c = CHR 0x0D then [BSLASH, CHR ''r'']
      else if (of_char c :: nat) < 32 then [BSLASH, CHR ''u'', CHR ''0'', CHR ''0''] @ hex2 (of_char c)
      else [c])"

definition quote :: "string \<Rightarrow> string" where
  "quote s = DQUOTE # concat (map escape_char s) @ [DQUOTE]"

fun stringify_scalar :: "scalar \<Rightarrow> string" where
  "stringify_scalar SNull = ''null''"
| "stringify_scalar (SBool b) = (if b then ''true'' else ''false'')"
| "stringify_scalar (SNum n) = show_int n"
| "stringify_scalar (SStr s) = quote s"

definition indent :: "nat \<Rightarrow> string" where
  "indent n = replicate (2 * n) CHR '' ''"

text \<open>
  \<open>stringify n v\<close> is the text of \<open>v\<close> at nesting depth \<open>n\<close>; \<open>stringify_elems\<close> and
  \<open>stringify_members\<close> join the parts of a non-empty array or object with a comma, a line
  break and the indentation of their depth.
\<close>

fun stringify :: "nat \<Rightarrow> jsval \<Rightarrow> string"
  and stringify_elems :: "nat \<Rightarrow> jsval option list \<Rightarrow> string"
  and stringify_members :: "nat \<Rightarrow> props \<Rightarrow> string"
where
  "stringify n (Scalar s) = stringify_scalar s"
| "stringify n (Arr []) = ''[]''"
| "stringify n (Arr (x # xs)) =
     CHR ''['' # NEWLINE # indent (Suc n) @ stringify_elems (Suc n) (x # xs) @ NEWLINE # indent n @ '']''"
| "stringify n (Obj []) = ''{}''"
| "stringify n (Obj (p # ps)) =
     CHR ''{'' # NEWLINE # indent (Suc n) @ stringify_members (Suc n) (p # ps) @ NEWLINE # indent n @ ''}''"
| "stringify_elems n [] = []"
| "stringify_elems n (None # xs) =
     ''null'' @ (if xs = [] then [] else CHR '','' # NEWLINE # indent n @ stringify_elems n xs)"
| "stringify_elems n (Some v # xs) =
     stringify n v @ (if xs = [] then [] else CHR '','' # NEWLINE # indent n @ stringify_elems n xs)"
| "stringify_members n [] = []"
| "stringify_members n ((k, v) # ps) =
     quote k @ CHR '':'' # CHR '' '' # stringify n v
       @ (if ps = [] then [] else CHR '','' # NEWLINE # indent n @ stringify_members n ps)"

definition JSON_stringify :: "jsval \<Rightarrow> string" where
  "JSON_stringify v = stringify 0 v"

section \<open>\<^verbatim>\<open>JSON.parse\<close>\<close>

text \<open>
  A recursive-descent reader of the JSON grammar. A syntax error is \<open>Throws SyntaxError\<close>.
  The first argument of the three mutually recursive functions bounds the depth of their
  calls; \<open>JSON_parse\<close> starts them with twice the length of the text plus two, and a call
  that would go deeper is \<open>Unmodelled\<close>.
\<close>

definition is_ws :: "char \<Rightarrow> bool" where
  "is_ws c = (c = CHR '' '' \<or> c = CHR 0x09 \<or> c = CHR 0x0A \<or> c = CHR 0x0D)"

definition skip_ws :: "string \<Rightarrow> string" where
  "skip_ws s = dropWhile is_ws s"

definition hex_val :: "char \<Rightarrow> nat option" where
  "hex_val c =
     (if c \<in> set ''0123456789'' then Some (of_char c - 48)
      else if c \<in> set ''abcdef'' then Some (of_char c - 87)
      else if c \<in> set ''ABCDEF'' then Some (of_char c - 55)
      else None)"

definition hex4 :: "char \<Rightarrow> char \<Rightarrow> char \<Rightarrow> char \<Rightarrow> nat option" where
  "hex4 a b c d =
     (case (hex_val a, hex_val b, hex_val c, hex_val d) of
        (Some w, Some x, Some y, Some z) \<Rightarrow> Some (4096 * w + 256 * x + 16 * y + z)
      | _ \<Rightarrow> None)"

definition unescape :: "char \<Rightarrow> char option" where
  "unescape c =
     (if c = DQUOTE then Some DQUOTE
      else if c = BSLASH then Some BSLASH
      else if c = CHR ''/'' then Some CHR ''/''
      else if c = CHR ''b'' then Some (CHR 0x08)
      else if c = CHR ''f'' then Some (CHR 0x0C)
      else if c = CHR ''n'' then Some (CHR 0x0A)
      else if c = CHR ''r'' then Some (CHR 0x0D)
      else if c = CHR ''t'' then Some (CHR 0x09)
      else None)"

definition prepend :: "char \<Rightarrow> (string \<times> string) outcome \<Rightarrow> (string \<times> string) outcome" where
  "prepend c r = and_then r (\<lambda>(s, rest). Returns (c # s, rest))"

text \<open>The characters of a string literal after its opening quote, up to the closing one.\<close>

fun parse_string :: "string \<Rightarrow> (string \<times> string) outcome" where
  "parse_string [] = Throws SyntaxError"
| "parse_string (c # cs) =
     (if c = DQUOTE then Returns ([], cs)
      else if c = BSLASH then
        (case cs of
           [] \<Rightarrow> Throws SyntaxError
         | e # r \<Rightarrow>
             if e = CHR ''u'' then
               (case r of
                  h1 # h2 # h3 # h4 # r' \<Rightarrow>
                    (case hex4 h1 h2 h3 h4 of
                       None \<Rightarrow> Throws SyntaxError
                     | Some n \<Rightarrow> if n < 256 then prepend (char_of n) (parse_string r') else Unmodelled)
                | _ \<Rightarrow> Throws SyntaxError)
             else
               (case unescape e of
                  None \<Rightarrow> Throws SyntaxError
                | Some ch \<Rightarrow> prepend ch (parse_string r)))
      else if (of_char c :: nat) < 32 then Throws SyntaxError
      else prepend c (parse_string cs))"

text \<open>
  A number literal: an optional minus sign, then \<^verbatim>\<open>0\<close> or a numeral without leading zero.
  After a leading \<^verbatim>\<open>0\<close> the literal ends, and what follows is left to the caller.
\<close>

definition parse_unsigned :: "string \<Rightarrow> (nat \<times> string) outcome" where
  "parse_unsigned body =
     (let run = takeWhile is_digit body;
          ds = (if run \<noteq> [] \<and> hd run = CHR ''0'' then ''0'' else run);
          rest = drop (length ds) body
      in if ds = [] then Throws SyntaxError
         else if rest \<noteq> [] \<and> hd rest \<in> set ''.eE'' then Unmodelled
         else Returns (nat_of_digits ds, rest))"

definition parse_number :: "string \<Rightarrow> (jsval \<times> string) outcome" where
  "parse_number s =
     (if s \<noteq> [] \<and> hd s = CHR ''-'' then
        and_then (parse_unsigned (tl s)) (\<lambda>(n, rest).
          if n = 0 then Unmodelled
          else if 9007199254740991 < int n then Unmodelled
          else Returns (JNum (- int n), rest))
      else
        and_then (parse_unsigned s) (\<lambda>(n, rest).
          if 9007199254740991 < int n then Unmodelled
          else Returns (JNum (int n), rest)))"

definition parse_literal :: "string \<Rightarrow> jsval \<Rightarrow> string \<Rightarrow> (jsval \<times> string) outcome" where
  "parse_literal word v s =
     (if take (length word) s = word then Returns (v, drop (length word) s) else Throws SyntaxError)"

text \<open>\<^verbatim>\<open>JSON.parse\<close> defines the members of an object in source order.\<close>

definition build_object :: "(string \<times> jsval) list \<Rightarrow> props" where
  "build_object ms = foldl (\<lambda>ps (k, v). put_prop k v ps) [] ms"

fun parse_value :: "nat \<Rightarrow> string \<Rightarrow> (jsval \<times> string) outcome"
  and parse_elements :: "nat \<Rightarrow> string \<Rightarrow> (jsval option list \<times> string) outcome"
  and parse_members :: "nat \<Rightarrow> string \<Rightarrow> ((string \<times> jsval) list \<times> string) outcome"
where
  "parse_value 0 s = Unmodelled"
| "parse_value (Suc f) s =
     (case skip_ws s of
        [] \<Rightarrow> Throws SyntaxError
      | c # cs \<Rightarrow>
          if c = CHR ''{'' then
            (case skip_ws cs of
               [] \<Rightarrow> Throws SyntaxError
             | d # ds \<Rightarrow>
                 if d = CHR ''}'' then Returns (Obj [], ds)
                 else and_then (parse_members f cs) (\<lambda>(ms, r). Returns (Obj (build_object ms), r)))
          else if c = CHR ''['' then
            (case skip_ws cs of
               [] \<Rightarrow> Throws SyntaxError
             | d # ds \<Rightarrow>
                 if d = CHR '']'' then Returns (Arr [], ds)
                 else and_then (parse_elements f cs) (\<lambda>(vs, r). Returns (Arr vs, r)))
          else if c = DQUOTE then and_then (parse_string cs) (\<lambda>(str, r). Returns (JStr str, r))
          else if c = CHR ''t'' then parse_literal ''true'' (JBool True) (c # cs)
          else if c = CHR ''f'' then parse_literal ''false'' (JBool False) (c # cs)
          else if c = CHR ''n'' then parse_literal ''null'' JNull (c # cs)
          else parse_number (c # cs))"
| "parse_elements 0 s = Unmodelled"
| "parse_elements (Suc f) s =
     and_then (parse_value f s) (\<lambda>(v, r).
       case skip_ws r of
         [] \<Rightarrow> Throws SyntaxError
       | c # cs \<Rightarrow>
           if c = CHR '']'' then Returns ([Some v], cs)
           else if c = CHR '','' then and_then (parse_elements f cs) (\<lambda>(vs, r'). Returns (Some v # vs, r'))
           else Throws SyntaxError)"
| "parse_members 0 s = Unmodelled"
| "parse_members (Suc f) s =
     (case skip_ws s of
        [] \<Rightarrow> Throws SyntaxError
      | q # qs \<Rightarrow>
          if q \<noteq> DQUOTE then Throws SyntaxError
          else and_then (parse_string qs) (\<lambda>(k, r).
            case skip_ws r of
              [] \<Rightarrow> Throws SyntaxError
            | c # cs \<Rightarrow>
                if c \<noteq> CHR '':'' then Throws SyntaxError
                else and_then (parse_value f cs) (\<lambda>(v, r').
                  case skip_ws r' of
                    [] \<Rightarrow> Throws SyntaxError
                  | d # ds \<Rightarrow>
                      if d = CHR ''}'' then Returns ([(k, v)], ds)
                      else if d = CHR '','' then
                        and_then (parse_members f ds) (\<lambda>(ms, r''). Returns ((k, v) # ms, r''))
                      else Throws SyntaxError)))"

definition JSON_parse :: "string \<Rightarrow> jsval outcome" where
  "JSON_parse s =
     and_then (parse_value (2 * length s + 2) s) (\<lambda>(v, r).
       if skip_ws r = [] then Returns v else Throws SyntaxError)"

section \<open>Property access\<close>

text \<open>
  A selector whose text the model knows: a string, or a number that a double holds exactly
  and that \<^verbatim>\<open>Number::toString\<close> prints as its decimal numeral.
\<close>

fun safe_selector :: "selector \<Rightarrow> bool" where
  "safe_selector (SKey s) = True"
| "safe_selector (SIdx n) = (int n \<le> 9007199254740991)"

text \<open>
  \<^verbatim>\<open>ToPropertyKey\<close>: a number selector names the property of its decimal numeral. The
  functions below use it for the selectors that are \<open>safe_selector\<close>.
\<close>

fun prop_key :: "selector \<Rightarrow> string" where
  "prop_key (SKey s) = s"
| "prop_key (SIdx n) = show_nat n"

text \<open>The names every object inherits from \<^verbatim>\<open>Object.prototype\<close>.\<close>

definition object_prototype_keys :: "string list" where
  "object_prototype_keys =
     [''constructor'', ''__defineGetter__'', ''__defineSetter__'', ''hasOwnProperty'',
      ''__lookupGetter__'', ''__lookupSetter__'', ''isPrototypeOf'', ''propertyIsEnumerable'',
      ''toString'', ''valueOf'', ''__proto__'', ''toLocaleString'']"

text \<open>
  \<^verbatim>\<open>key in current\<close>. On \<^verbatim>\<open>null\<close> and on a primitive the operator throws a
  \<^verbatim>\<open>TypeError\<close>.
\<close>

fun has_property :: "jsval \<Rightarrow> selector \<Rightarrow> bool outcome" where
  "has_property (Obj ps) key =
     (if \<not> safe_selector key then Unmodelled
      else if prop_key key \<in> fst ` set ps then Returns True
      else if prop_key key \<in> set object_prototype_keys then Unmodelled
      else Returns False)"
| "has_property (Arr xs) key =
     (if \<not> safe_selector key then Unmodelled
      else case index_of_key (prop_key key) of
        None \<Rightarrow> Unmodelled
      | Some i \<Rightarrow> Returns (i < length xs \<and> xs ! i \<noteq> None))"
| "has_property (Scalar s) key = Throws TypeError"

text \<open>
  \<^verbatim>\<open>current[key]\<close>: the value of an own property, \<open>None\<close> for \<^verbatim>\<open>undefined\<close> where
  no property of that name exists. Reading a property of \<^verbatim>\<open>null\<close> throws a
  \<^verbatim>\<open>TypeError\<close>; a primitive answers from the prototype of its wrapper.
\<close>

fun get_property :: "jsval \<Rightarrow> selector \<Rightarrow> jsval option outcome" where
  "get_property (Obj ps) key =
     (if \<not> safe_selector key then Unmodelled
      else case map_of ps (prop_key key) of
        Some v \<Rightarrow> Returns (Some v)
      | None \<Rightarrow> if prop_key key \<in> set object_prototype_keys then Unmodelled else Returns None)"
| "get_property (Arr xs) key =
     (if \<not> safe_selector key then Unmodelled
      else case index_of_key (prop_key key) of
        None \<Rightarrow> Unmodelled
      | Some i \<Rightarrow> Returns (if i < length xs then xs ! i else None))"
| "get_property (Scalar s) key = (if s = SNull then Throws TypeError else Unmodelled)"

text \<open>
  \<^verbatim>\<open>current[key] = v\<close> for an object and for an index of an array, the cases in which
  the functions below use it.
\<close>

fun set_own :: "jsval \<Rightarrow> selector \<Rightarrow> jsval \<Rightarrow> jsval" where
  "set_own (Obj ps) key v = Obj (put_prop (prop_key key) v ps)"
| "set_own (Arr xs) key v =
     (case index_of_key (prop_key key) of
        None \<Rightarrow> Arr xs
      | Some i \<Rightarrow> Arr (write_index i v xs))"
| "set_own (Scalar s) key v = Scalar s"

text \<open>
  \<^verbatim>\<open>o[k] = v\<close> with a scalar \<open>v\<close> on an object made by an object literal. The state pairs
  the own properties with a flag that the prototype has been set to \<^verbatim>\<open>null\<close>. While
  \<^verbatim>\<open>__proto__\<close> is not an own property and \<^verbatim>\<open>Object.prototype\<close> is still the prototype,
  the assignment \<^verbatim>\<open>o["__proto__"] = v\<close> runs the inherited setter: it creates no property,
  \<^verbatim>\<open>null\<close> removes the prototype and any other scalar is ignored.
\<close>

definition assign_prop :: "string \<Rightarrow> scalar \<Rightarrow> props \<times> bool \<Rightarrow> props \<times> bool" where
  "assign_prop k v st =
     (case st of (ps, proto_null) \<Rightarrow>
        if k = ''__proto__'' \<and> k \<notin> fst ` set ps \<and> \<not> proto_null then (ps, v = SNull)
        else (put_prop k (Scalar v) ps, proto_null))"

section \<open>\<^verbatim>\<open>normalizeNodeData\<close>\<close>

text \<open>
  One row of a node: \<^verbatim>\<open>{ key, value, type }\<close>. The declaration of \<^verbatim>\<open>NodeData\<close> is not
  among the sources; the key may be absent and the value is a scalar.
\<close>

record row =
  row_key :: "string option"
  row_value :: scalar
  row_type :: string

text \<open>The truthiness of \<^verbatim>\<open>row.key\<close>: an absent key and the empty string are falsy.\<close>

definition truthy_key :: "string option \<Rightarrow> bool" where
  "truthy_key k = (case k of None \<Rightarrow> False | Some s \<Rightarrow> s \<noteq> [])"

text \<open>The template literal \<^verbatim>\<open>`${value}`\<close>.\<close>

fun to_text :: "scalar \<Rightarrow> string" where
  "to_text SNull = ''null''"
| "to_text (SBool b) = (if b then ''true'' else ''false'')"
| "to_text (SNum n) = show_int n"
| "to_text (SStr s) = s"

definition add_row :: "props \<times> bool \<Rightarrow> row \<Rightarrow> props \<times> bool" where
  "add_row st r =
     (if row_type r \<noteq> ''array'' \<and> row_type r \<noteq> ''object'' then
        (case row_key r of
           None \<Rightarrow> st
         | Some k \<Rightarrow> if k \<noteq> [] then assign_prop k (row_value r) st else st)
      else st)"

definition rows_object :: "row list \<Rightarrow> props" where
  "rows_object nodeRows = fst (foldl add_row ([], False) nodeRows)"

definition normalizeNodeData :: "row list \<Rightarrow> string" where
  "normalizeNodeData nodeRows =
     (case nodeRows of
        [] \<Rightarrow> ''{}''
      | r # rs \<Rightarrow>
          if rs = [] \<and> \<not> truthy_key (row_key r) then to_text (row_value r)
          else JSON_stringify (Obj (rows_object nodeRows)))"

section \<open>\<^verbatim>\<open>jsonPathToString\<close>\<close>

fun join :: "string \<Rightarrow> string list \<Rightarrow> string" where
  "join sep [] = []"
| "join sep [x] = x"
| "join sep (x # y # xs) = x @ sep @ join sep (y # xs)"

text \<open>
  The text \<^verbatim>\<open>join\<close> gives one element of \<^verbatim>\<open>segments\<close>: a string selector between
  double quotes, a number selector as \<^verbatim>\<open>Number::toString\<close> prints it. The model knows
  that text for the numbers up to \<open>2^53 - 1\<close>, the decimal numeral; beyond, JavaScript
  prints a rounded value or exponent notation.
\<close>

fun segment :: "selector \<Rightarrow> string outcome" where
  "segment (SIdx n) = (if int n \<le> 9007199254740991 then Returns (show_nat n) else Unmodelled)"
| "segment (SKey s) = Returns (DQUOTE # s @ [DQUOTE])"

fun segments :: "selector list \<Rightarrow> string list outcome" where
  "segments [] = Returns []"
| "segments (seg # path) =
     and_then (segment seg) (\<lambda>x. and_then (segments path) (\<lambda>xs. Returns (x # xs)))"

definition jsonPathToString :: "selector list option \<Rightarrow> string outcome" where
  "jsonPathToString path =
     (case path of
        None \<Rightarrow> Returns ''$''
      | Some p \<Rightarrow>
          if p = [] then Returns ''$''
          else and_then (segments p) (\<lambda>segs. Returns (''$['' @ join '']['' segs @ '']'')))"

section \<open>\<^verbatim>\<open>updateJsonByPath\<close>\<close>

text \<open>The declared type of \<^verbatim>\<open>path\<close>: a string or an array of selectors.\<close>

datatype path_arg = PathString string | PathArray "selector list"

text \<open>
  \<^verbatim>\<open>Object.keys(editedFields)\<close>, each key with \<^verbatim>\<open>editedFields[key]\<close>: the own properties of
  an object, the indices of an array that are not holes, the indices of a string with its
  characters, nothing for a number or a boolean, and a \<^verbatim>\<open>TypeError\<close> for \<^verbatim>\<open>null\<close>.
\<close>

fun array_entries :: "nat \<Rightarrow> jsval option list \<Rightarrow> (string \<times> jsval) list" where
  "array_entries i [] = []"
| "array_entries i (None # xs) = array_entries (Suc i) xs"
| "array_entries i (Some v # xs) = (show_nat i, v) # array_entries (Suc i) xs"

fun object_entries :: "jsval \<Rightarrow> (string \<times> jsval) list outcome" where
  "object_entries (Obj eps) = Returns eps"
| "object_entries (Arr xs) = Returns (array_entries 0 xs)"
| "object_entries (Scalar SNull) = Throws TypeError"
| "object_entries (Scalar (SStr s)) = Returns (array_entries 0 (map (\<lambda>c. Some (JStr [c])) s))"
| "object_entries (Scalar (SBool b)) = Returns []"
| "object_entries (Scalar (SNum n)) = Returns []"

text \<open>
  Lines 66 to 75: the copy of the target's own properties, then every entry of
  \<^verbatim>\<open>editedFields\<close> whose value is not an object (or is \<^verbatim>\<open>null\<close>) assigned to it.
\<close>

definition merge_entry :: "props \<times> bool \<Rightarrow> string \<times> jsval \<Rightarrow> props \<times> bool" where
  "merge_entry st kv =
     (case kv of (k, v) \<Rightarrow> (case v of Scalar s \<Rightarrow> assign_prop k s st | _ \<Rightarrow> st))"

definition merge_fields :: "props \<Rightarrow> jsval \<Rightarrow> jsval outcome" where
  "merge_fields targetNode editedFields =
     and_then (object_entries editedFields) (\<lambda>entries.
       Returns (Obj (fst (foldl merge_entry (targetNode, False) entries))))"

text \<open>
  Lines 58 to 82, for the container \<open>current\<close> the loop ended in; the result is that container
  after the write. \<^verbatim>\<open>null\<close> is left alone. A primitive has no slot to write: the
  assignment throws in the strict mode of a module. The target is merged into when it is
  an object other than an array, and replaced otherwise.
\<close>

definition write_target :: "jsval \<Rightarrow> selector \<Rightarrow> jsval \<Rightarrow> jsval outcome" where
  "write_target current lastKey editedFields =
     (case current of
        Scalar s \<Rightarrow>
          if s = SNull then Returns current
          else if prop_key lastKey = ''__proto__'' then Unmodelled
          else Throws TypeError
      | _ \<Rightarrow>
          and_then (get_property current lastKey) (\<lambda>targetNode.
            case targetNode of
              Some (Obj target) \<Rightarrow>
                and_then (merge_fields target editedFields) (\<lambda>mergedNode.
                  Returns (set_own current lastKey mergedNode))
            | _ \<Rightarrow> Returns (set_own current lastKey editedFields)))"

text \<open>
  Lines 49 to 56 and then the write. The loop descends along the path; a key that is not in
  the current container gets an empty array when the next selector is a number and an
  empty object otherwise. The result is the container \<open>current\<close> after all writes below it.
  The caller never passes the empty path.
\<close>

fun fresh_container :: "selector \<Rightarrow> jsval" where
  "fresh_container (SIdx n) = Arr []"
| "fresh_container (SKey s) = Obj []"

fun walk :: "selector list \<Rightarrow> jsval \<Rightarrow> jsval \<Rightarrow> jsval outcome" where
  "walk [] current editedFields = Returns current"
| "walk [lastKey] current editedFields = write_target current lastKey editedFields"
| "walk (key # nextKey # rest) current editedFields =
     and_then (has_property current key) (\<lambda>present.
       and_then (if present then get_property current key else Returns (Some (fresh_container nextKey)))
         (\<lambda>found.
            case found of
              None \<Rightarrow> Unmodelled
            | Some child \<Rightarrow>
                and_then (walk (nextKey # rest) child editedFields) (\<lambda>child'.
                  Returns (set_own current key child'))))"

text \<open>\<^verbatim>\<open>try { ... } catch (error) { return json }\<close>.\<close>

definition catch_return :: "string \<Rightarrow> string outcome \<Rightarrow> string outcome" where
  "catch_return json r = (case r of Throws e \<Rightarrow> Returns json | _ \<Rightarrow> r)"

definition updateJsonByPath :: "string \<Rightarrow> path_arg \<Rightarrow> jsval \<Rightarrow> string outcome" where
  "updateJsonByPath json path editedFields =
     catch_return json
       (and_then (JSON_parse json) (\<lambda>obj.
          case path of
            PathString p \<Rightarrow>
              if p = [] then Returns (JSON_stringify editedFields)
              else and_then (walk [SKey p] obj editedFields) (\<lambda>obj'. Returns (JSON_stringify obj'))
          | PathArray pathArray \<Rightarrow>
              if pathArray = [] then Returns (JSON_stringify editedFields)
              else and_then (walk pathArray obj editedFields) (\<lambda>obj'. Returns (JSON_stringify obj'))))"

section \<open>\<^verbatim>\<open>handleSave\<close>\<close>

text \<open>
  The state the handler reads and writes: the document of the JSON store, the contents and
  the change flag of the file store, the selected node, the edited text and the editing
  flag of the dialog. The handler ends with a success or an error notification.
\<close>

record node_data =
  node_text :: "row list"
  node_path :: "selector list option"

record editor =
  storedJson :: string
  contents :: string
  hasChanges :: bool
  selectedNode :: "node_data option"
  editedValue :: string
  isEditing :: bool

datatype toast = ToastSuccess | ToastError

text \<open>Lines 111 to 116: the edited text as JSON, or as a string when it is not JSON.\<close>

definition edited_fields :: "string \<Rightarrow> jsval outcome" where
  "edited_fields txt =
     (case JSON_parse txt of
        Returns v \<Rightarrow> Returns v
      | Throws e \<Rightarrow> Returns (JStr txt)
      | Unmodelled \<Rightarrow> Unmodelled)"

definition handleSave :: "editor \<Rightarrow> (editor \<times> toast) outcome" where
  "handleSave st =
     (let pathArray = (case selectedNode st of
                         None \<Rightarrow> []
                       | Some nodeData \<Rightarrow> (case node_path nodeData of None \<Rightarrow> [] | Some p \<Rightarrow> p))
      in and_then (edited_fields (editedValue st)) (\<lambda>editedFields.
           and_then (updateJsonByPath (storedJson st) (PathArray pathArray) editedFields) (\<lambda>updatedJson.
             case JSON_parse updatedJson of
               Returns v \<Rightarrow>
                 Returns (st\<lparr>storedJson := updatedJson, contents := updatedJson, hasChanges := True,
                             isEditing := False\<rparr>, ToastSuccess)
             | Throws e \<Rightarrow> Returns (st, ToastError)
             | Unmodelled \<Rightarrow> Unmodelled)))"

text \<open>
  A node becomes the selected one, and the effect of lines 99 to 104 runs: the edited text
  becomes \<^verbatim>\<open>normalizeNodeData(nodeData.text ?? [])\<close> and editing is switched off.
\<close>

definition on_select :: "node_data \<Rightarrow> editor \<Rightarrow> editor" where
  "on_select nodeData st =
     st\<lparr>selectedNode := Some nodeData, editedValue := normalizeNodeData (node_text nodeData),
        isEditing := False\<rparr>"

section \<open>Notions used to state the properties\<close>

text \<open>
  The own property of a container under a selector, the value a path resolves to through
  own properties, and the tree that holds \<open>v\<close> at a path that resolves.
\<close>

fun get_own :: "jsval \<Rightarrow> selector \<Rightarrow> jsval option" where
  "get_own (Obj ps) key = (if safe_selector key then map_of ps (prop_key key) else None)"
| "get_own (Arr xs) key =
     (if \<not> safe_selector key then None
      else case index_of_key (prop_key key) of
        None \<Rightarrow> None
      | Some i \<Rightarrow> if i < length xs then xs ! i else None)"
| "get_own (Scalar s) key = None"

fun descend :: "selector list \<Rightarrow> jsval \<Rightarrow> jsval option" where
  "descend [] v = Some v"
| "descend (key # rest) v = (case get_own v key of None \<Rightarrow> None | Some child \<Rightarrow> descend rest child)"

fun graft :: "selector list \<Rightarrow> jsval \<Rightarrow> jsval \<Rightarrow> jsval" where
  "graft [] old v = v"
| "graft (key # rest) old v =
     (case get_own old key of None \<Rightarrow> old | Some child \<Rightarrow> set_own old key (graft rest child v))"


text \<open>
  A selector that stays inside the model when it is looked up in a fresh container: an
  array index, or a name that \<^verbatim>\<open>Object.prototype\<close> does not define.
\<close>

fun plain :: "selector \<Rightarrow> bool" where
  "plain (SIdx n) = (int n < 4294967295)"
| "plain (SKey s) = (s \<notin> set object_prototype_keys)"

text \<open>
  The values \<^verbatim>\<open>JSON.parse\<close> produces: numbers within the safe range, arrays without
  holes, objects with distinct keys in own-property order.
\<close>

fun safe_scalar :: "scalar \<Rightarrow> bool" where
  "safe_scalar (SNum n) = (\<bar>n\<bar> \<le> 9007199254740991)"
| "safe_scalar s = True"

definition own_order :: "string list \<Rightarrow> bool" where
  "own_order ks = (distinct ks \<and> sorted_wrt (\<lambda>k k'. \<not> comes_before k' k) ks)"


text \<open>The scalar fields of \<^verbatim>\<open>editedFields\<close>: the entries the merge assigns.\<close>

definition leaf_fields :: "props \<Rightarrow> props" where
  "leaf_fields eps = filter (\<lambda>kv. case snd kv of Scalar s \<Rightarrow> True | _ \<Rightarrow> False) eps"

text \<open>The rows \<^verbatim>\<open>normalizeNodeData\<close> keeps: a non-empty key and a type that is no container.\<close>

definition kept_row :: "row \<Rightarrow> bool" where
  "kept_row r = (truthy_key (row_key r) \<and> row_type r \<noteq> ''array'' \<and> row_type r \<noteq> ''object'')"

definition row_entry :: "row \<Rightarrow> string \<times> jsval" where
  "row_entry r = (case row_key r of None \<Rightarrow> ([], Scalar (row_value r)) | Some k \<Rightarrow> (k, Scalar (row_value r)))"

text \<open>One selector as \<^verbatim>\<open>jsonPathToString\<close> shows it: in brackets, a string in double quotes.\<close>

definition bracketed :: "selector \<Rightarrow> string" where
  "bracketed sel =
     (case sel of
        SIdx n \<Rightarrow> ''['' @ show_nat n @ '']''
      | SKey s \<Rightarrow> ''['' @ [DQUOTE] @ s @ [DQUOTE] @ '']'')"

text \<open>A row whose key is the empty string, with the key taken away.\<close>

definition unkey :: "row \<Rightarrow> row" where
  "unkey r = (if row_key r = Some [] then r\<lparr>row_key := None\<rparr> else r)"

text \<open>One entry put into a list of own properties.\<close>

definition put_entry :: "props \<Rightarrow> string \<times> jsval \<Rightarrow> props" where
  "put_entry ps kv = put_prop (fst kv) (snd kv) ps"

text \<open>
  What may follow a value in the text \<^verbatim>\<open>JSON.stringify\<close> writes: the end, a comma or a
  line break.
\<close>

definition ends_value :: "string \<Rightarrow> bool" where
  "ends_value rest = (rest = [] \<or> hd rest = CHR '','' \<or> hd rest = NEWLINE)"

text \<open>
  The values \<^verbatim>\<open>JSON.stringify\<close> writes as text that \<^verbatim>\<open>JSON.parse\<close> reads back: numbers
  within the safe range, objects with distinct keys in own-property order; arrays may have
  holes. \<open>fill\<close> is the value read back: every hole has become \<^verbatim>\<open>null\<close>.
\<close>

fun serializable :: "jsval \<Rightarrow> bool"
  and serializable_elems :: "jsval option list \<Rightarrow> bool"
  and serializable_members :: "props \<Rightarrow> bool"
where
  "serializable (Scalar s) = safe_scalar s"
| "serializable (Arr xs) = serializable_elems xs"
| "serializable (Obj ps) = (own_order (map fst ps) \<and> serializable_members ps)"
| "serializable_elems [] = True"
| "serializable_elems (None # xs) = serializable_elems xs"
| "serializable_elems (Some v # xs) = (serializable v \<and> serializable_elems xs)"
| "serializable_members [] = True"
| "serializable_members ((k, v) # ps) = (serializable v \<and> serializable_members ps)"

fun fill :: "jsval \<Rightarrow> jsval"
  and fill_elems :: "jsval option list \<Rightarrow> jsval option list"
  and fill_members :: "props \<Rightarrow> props"
where
  "fill (Scalar s) = Scalar s"
| "fill (Arr xs) = Arr (fill_elems xs)"
| "fill (Obj ps) = Obj (fill_members ps)"
| "fill_elems [] = []"
| "fill_elems (None # xs) = Some JNull # fill_elems xs"
| "fill_elems (Some v # xs) = Some (fill v) # fill_elems xs"
| "fill_members [] = []"
| "fill_members ((k, v) # ps) = (k, fill v) # fill_members ps"

text \<open>A text that begins with a token other than a closing bracket or brace.\<close>

definition token_start :: "string \<Rightarrow> bool" where
  "token_start s = (s \<noteq> [] \<and> \<not> is_ws (hd s) \<and> hd s \<noteq> CHR '']'' \<and> hd s \<noteq> CHR ''}'')"

text \<open>Own properties whose values are all scalars within the safe range.\<close>

definition scalar_entries :: "props \<Rightarrow> bool" where
  "scalar_entries ps = list_all (\<lambda>kv. case snd kv of Scalar s \<Rightarrow> safe_scalar s | _ \<Rightarrow> False) ps"

text \<open>The text of one selector inside the brackets.\<close>

fun selector_text :: "selector \<Rightarrow> string" where
  "selector_text (SIdx n) = show_nat n"
| "selector_text (SKey s) = DQUOTE # s @ [DQUOTE]"




text \<open>
  Modelled from the spec: the rows of a node. The code that reads a node off the document
  (the graph) is not among the sources. By the data model of the specification the rows of
  a node are its direct children in order, each under its key; the row of a nested array or
  object is a marker of type \<^verbatim>\<open>"array"\<close> or \<^verbatim>\<open>"object"\<close>; and a single row without a key
  is a node that is a scalar.
\<close>

definition row_shows :: "row \<Rightarrow> jsval \<Rightarrow> bool" where
  "row_shows r v =
     (case v of
        Scalar s \<Rightarrow> row_value r = s \<and> row_type r \<noteq> ''array'' \<and> row_type r \<noteq> ''object''
      | Arr xs \<Rightarrow> row_type r = ''array''
      | Obj ps \<Rightarrow> row_type r = ''object'')"


definition scalar_rows :: "row list \<Rightarrow> scalar \<Rightarrow> bool" where
  "scalar_rows rows s =
     (case rows of
        [] \<Rightarrow> False
      | r # rs \<Rightarrow> rs = [] \<and> row_key r = None \<and> row_shows r (Scalar s))"



section \<open>Properties\<close>

lemma and_then_simps [simp]:
  "and_then (Returns x) f = f x"
  "and_then (Throws e) f = Throws e"
  "and_then Unmodelled f = Unmodelled"
  by (simp_all add: and_then_def)

subsection \<open>The path shown to the user\<close>

lemma digit_char_is_digit: "d < 10 \<Longrightarrow> is_digit (digit_char d)"
proof -
  assume "d < 10"
  then have "d \<in> {0,1,2,3,4,5,6,7,8,9}" by auto
  then show ?thesis by (auto simp: is_digit_def digit_char_def)
qed

lemma show_nat_digits: "list_all is_digit (show_nat n)"
proof (induction n rule: show_nat.induct)
  case (1 n)
  show ?case
  proof (cases "n < 10")
    case True
    then show ?thesis by (subst show_nat.simps) (simp add: digit_char_is_digit)
  next
    case False
    with 1 show ?thesis by (subst show_nat.simps) (simp add: digit_char_is_digit)
  qed
qed

lemma join_brackets:
  "xs \<noteq> [] \<Longrightarrow> join '']['' xs @ '']'' = tl (concat (map (\<lambda>x. CHR ''['' # x @ '']'') xs))"
  by (induction "'']['' :: string" xs rule: join.induct) auto

lemma segments_safe: "list_all safe_selector p \<Longrightarrow> segments p = Returns (map selector_text p)"
proof (induction p)
  case Nil
  then show ?case by simp
next
  case (Cons sel p)
  then show ?case by (cases sel) simp_all
qed

lemma bracketed_text: "bracketed sel = CHR ''['' # selector_text sel @ '']''"
  by (cases sel) (simp_all add: bracketed_def)

lemma jsonPathToString_concat:
  assumes "list_all safe_selector p"
  shows "jsonPathToString (Some p) = Returns (CHR ''$'' # concat (map bracketed p))"
proof (cases p)
  case Nil
  then show ?thesis by (simp add: jsonPathToString_def)
next
  case (Cons a list)
  then have "join '']['' (map selector_text p) @ '']''
      = tl (concat (map (\<lambda>x. CHR ''['' # x @ '']'') (map selector_text p)))"
    by (intro join_brackets) simp
  then show ?thesis using Cons segments_safe[OF assms]
    by (simp add: jsonPathToString_def bracketed_text[abs_def] comp_def)
qed

text \<open>
  Claim C8. An absent path and the empty path are shown as \<^verbatim>\<open>$\<close>. A path whose number
  selectors are at most \<open>2^53 - 1\<close> (every array index is) is shown as \<^verbatim>\<open>$\<close> followed by
  its selectors in order, each in brackets: a number as its decimal digits and nothing
  else, a string between double quotes.
\<close>

theorem jsonPathToString_format:
  assumes "list_all safe_selector p" and "safe_selector (SIdx n)"
  shows \<open>jsonPathToString None = Returns ''$'' \<and> jsonPathToString (Some []) = Returns ''$''
   \<and> jsonPathToString (Some p) = Returns (''$'' @ concat (map bracketed p))
   \<and> segment (SIdx n) = Returns (show_nat n)
   \<and> bracketed (SIdx n) = ''['' @ show_nat n @ '']'' \<and> list_all is_digit (show_nat n)
   \<and> bracketed (SKey s) = ''["'' @ s @ ''"]''\<close>
  using assms(2)
  by (simp add: jsonPathToString_concat[OF assms(1)] show_nat_digits bracketed_def)
    (simp add: jsonPathToString_def)

text \<open>The path \<^verbatim>\<open>["customer", 0, "id"]\<close> is shown as \<^verbatim>\<open>$["customer"][0]["id"]\<close>.\<close>

theorem jsonPathToString_format_witness:
  \<open>jsonPathToString (Some [SKey ''customer'', SIdx 0, SKey ''id'']) = Returns ''$["customer"][0]["id"]''
   \<and> segment (SIdx 0) = Returns ''0''\<close>
proof -
  have h1: "list_all safe_selector [SKey ''customer'', SIdx 0, SKey ''id'']" by simp
  have h2: "safe_selector (SIdx 0)" by simp
  have b: \<open>concat (map bracketed [SKey ''customer'', SIdx 0, SKey ''id'']) = ''["customer"][0]["id"]''\<close>
    by code_simp
  have z: "show_nat 0 = ''0''" by code_simp
  from jsonPathToString_format[OF h1 h2, of s] b z show ?thesis by simp
qed

subsection \<open>Keys of the object built from rows\<close>

lemma map_fst_replace_prop: "map fst (replace_prop k v ps) = map fst ps"
  by (induction ps) auto

lemma keys_insert_prop: "fst ` set (insert_prop k v ps) = insert k (fst ` set ps)"
proof (induction ps)
  case Nil
  then show ?case by simp
next
  case (Cons a ps)
  then show ?case by (cases a) (simp add: insert_commute)
qed

lemma keys_put_prop: "fst ` set (put_prop k v ps) = insert k (fst ` set ps)"
proof -
  have r: "fst ` set (replace_prop k v ps) = fst ` set ps"
    using map_fst_replace_prop[of k v ps] by (metis set_map)
  note i = keys_insert_prop[of k v ps]
  show ?thesis
  proof (cases "k \<in> fst ` set ps")
    case True
    then show ?thesis using r by (simp add: put_prop_def insert_absorb)
  next
    case False
    then show ?thesis using i by (simp add: put_prop_def)
  qed
qed

lemma keys_assign_prop: "fst ` set (fst (assign_prop k v st)) \<subseteq> insert k (fst ` set (fst st))"
  by (cases st) (auto simp: assign_prop_def keys_put_prop)

lemma keys_add_row:
  "fst ` set (fst (add_row st r)) \<subseteq> fst ` set (fst st) \<union> {k. k \<noteq> [] \<and> row_key r = Some k}"
  using keys_assign_prop[of _ "row_value r" st]
  by (auto simp: add_row_def split: option.splits)

lemma keys_foldl_add_row:
  "fst ` set (fst (foldl add_row st rows)) \<subseteq> fst ` set (fst st) \<union> {k. k \<noteq> [] \<and> (\<exists>r \<in> set rows. row_key r = Some k)}"
proof (induction rows arbitrary: st)
  case Nil
  then show ?case by simp
next
  case (Cons r rows)
  show ?case using Cons.IH[of "add_row st r"] keys_add_row[of st r] by auto
qed

lemma empty_key_not_in_rows_object: "[] \<notin> fst ` set (rows_object rows)"
  using keys_foldl_add_row[of "([], False)" rows] by (auto simp: rows_object_def)

lemma add_row_blank: "row_key r = Some [] \<Longrightarrow> add_row st r = st"
  by (simp add: add_row_def)

lemma foldl_add_row_filter:
  "foldl add_row st (filter (\<lambda>r. row_key r \<noteq> Some []) rows) = foldl add_row st rows"
  by (induction rows arbitrary: st) (simp_all add: add_row_blank)

lemma rows_object_filter: "rows_object (filter (\<lambda>r. row_key r \<noteq> Some []) rows) = rows_object rows"
  by (simp add: rows_object_def foldl_add_row_filter)

lemma add_row_key_None: "add_row st (r\<lparr>row_key := None\<rparr>) = add_row st (r\<lparr>row_key := Some []\<rparr>)"
  by (simp add: add_row_def)

lemma add_row_unkey: "add_row st (unkey r) = add_row st r"
  by (simp add: add_row_def unkey_def)

lemma foldl_add_row_unkey: "foldl add_row st (map unkey rows) = foldl add_row st rows"
  by (induction rows arbitrary: st) (simp_all add: add_row_unkey)

lemma truthy_unkey: "truthy_key (row_key (unkey r)) = truthy_key (row_key r)"
  by (simp add: unkey_def truthy_key_def)

lemma normalize_unkey: "normalizeNodeData (map unkey rows) = normalizeNodeData rows"
proof (cases rows)
  case Nil
  then show ?thesis by (simp add: normalizeNodeData_def)
next
  case (Cons r rs)
  have "rows_object (map unkey rows) = rows_object rows"
    by (simp add: rows_object_def foldl_add_row_unkey)
  moreover have "row_value (unkey r) = row_value r" by (simp add: unkey_def)
  ultimately show ?thesis using Cons
    by (simp add: normalizeNodeData_def truthy_unkey)
qed

text \<open>
  Claim C10. \<^verbatim>\<open>normalizeNodeData\<close> treats the empty string as a missing key. A single
  row whose key is the empty string is rendered as the text of its value, as the same row
  without a key is, and not as an object. In general the result does not change when
  every empty key is taken away. A sequence of two or more rows is rendered as an object,
  which is the object of the rows whose key is not the empty string; the empty string is
  never one of its keys.
\<close>

theorem normalizeNodeData_empty_key:
  "normalizeNodeData [r\<lparr>row_key := Some ''''\<rparr>] = to_text (row_value r)
   \<and> normalizeNodeData [r\<lparr>row_key := Some ''''\<rparr>] = normalizeNodeData [r\<lparr>row_key := None\<rparr>]
   \<and> normalizeNodeData (map unkey rows) = normalizeNodeData rows
   \<and> normalizeNodeData (r1 # r2 # rs) = JSON_stringify (Obj (rows_object (r1 # r2 # rs)))
   \<and> rows_object (filter (\<lambda>r. row_key r \<noteq> Some '''') rows) = rows_object rows
   \<and> '''' \<notin> fst ` set (rows_object rows)"
  by (simp add: normalize_unkey rows_object_filter empty_key_not_in_rows_object)
     (simp add: normalizeNodeData_def truthy_key_def)

subsection \<open>A document that does not parse, and the empty path\<close>

lemma catch_return_simps [simp]:
  "catch_return json (Returns x) = Returns x"
  "catch_return json (Throws e) = Returns json"
  "catch_return json Unmodelled = Unmodelled"
  by (simp_all add: catch_return_def)

lemma catch_return_never_throws: "catch_return json r \<noteq> Throws x"
  by (cases r) simp_all

lemma updateJsonByPath_never_throws: "updateJsonByPath json path e \<noteq> Throws x"
  unfolding updateJsonByPath_def by (rule catch_return_never_throws)

text \<open>
  Claim C2. When \<^verbatim>\<open>JSON.parse\<close> throws on the document text, \<^verbatim>\<open>updateJsonByPath\<close>
  returns that text unchanged, for every path and every value of the edited fields; and no
  call of \<^verbatim>\<open>updateJsonByPath\<close> throws.
\<close>

theorem updateJsonByPath_unparseable:
  "JSON_parse json = Throws x \<Longrightarrow>
     updateJsonByPath json path editedFields = Returns json
     \<and> (\<forall>json' path' editedFields' y. updateJsonByPath json' path' editedFields' \<noteq> Throws y)"
  by (simp add: updateJsonByPath_never_throws) (simp add: updateJsonByPath_def)

theorem updateJsonByPath_unparseable_witness:
  \<open>JSON_parse ''{"a": 1'' = Throws SyntaxError
   \<and> updateJsonByPath ''{"a": 1'' (PathArray [SKey ''a'']) (JNum 2) = Returns ''{"a": 1''\<close>
proof -
  have h: \<open>JSON_parse ''{"a": 1'' = Throws SyntaxError\<close>
    by code_simp
  from updateJsonByPath_unparseable[OF h] h show ?thesis
    by simp
qed

text \<open>
  Claim C6. When the document text parses and the path is empty (the empty array, or the
  empty string, which is falsy as an absent path is), \<^verbatim>\<open>updateJsonByPath\<close> returns
  \<^verbatim>\<open>JSON.stringify(editedFields, null, 2)\<close>: nothing of the document is in the result.
\<close>

theorem updateJsonByPath_empty_path:
  "JSON_parse json = Returns obj \<Longrightarrow>
     updateJsonByPath json (PathArray []) editedFields = Returns (JSON_stringify editedFields)
     \<and> updateJsonByPath json (PathString []) editedFields = Returns (JSON_stringify editedFields)"
  by (simp add: updateJsonByPath_def)

theorem updateJsonByPath_empty_path_witness:
  \<open>JSON_parse ''{"a":1}'' = Returns (Obj [(''a'', JNum 1)])
   \<and> updateJsonByPath ''{"a":1}'' (PathArray []) (Obj [(''b'', JNum 2)])
       = Returns (''{'' @ [NEWLINE] @ ''  "b": 2'' @ [NEWLINE] @ ''}'')\<close>
proof -
  have h: \<open>JSON_parse ''{"a":1}'' = Returns (Obj [(''a'', JNum 1)])\<close>
    by code_simp
  have s: \<open>JSON_stringify (Obj [(''b'', JNum 2)]) = ''{'' @ [NEWLINE] @ ''  "b": 2'' @ [NEWLINE] @ ''}''\<close>
    by code_simp
  from updateJsonByPath_empty_path[OF h, of "Obj [(''b'', JNum 2)]"] h s show ?thesis
    by simp
qed

subsection \<open>Decimal numerals, own properties and the walk along a path that resolves\<close>

lemma digit_val_digit_char: "d < 10 \<Longrightarrow> digit_val (digit_char d) = d"
proof -
  assume "d < 10"
  then have "d \<in> {0,1,2,3,4,5,6,7,8,9}" by auto
  then show ?thesis by (auto simp: digit_val_def digit_char_def)
qed

lemma digit_char_zero: "d < 10 \<Longrightarrow> digit_char d = CHR ''0'' \<longleftrightarrow> d = 0"
proof -
  assume "d < 10"
  then have "d \<in> {0,1,2,3,4,5,6,7,8,9}" by auto
  then show ?thesis by (auto simp: digit_char_def)
qed

lemma show_nat_nonempty: "show_nat n \<noteq> []"
  by (subst show_nat.simps) simp

lemma nat_of_digits_snoc: "nat_of_digits (ds @ [c]) = 10 * nat_of_digits ds + digit_val c"
  by (simp add: nat_of_digits_def)

lemma nat_of_digits_show_nat: "nat_of_digits (show_nat n) = n"
proof (induction n rule: show_nat.induct)
  case (1 n)
  show ?case
  proof (cases "n < 10")
    case True
    then show ?thesis
      by (subst show_nat.simps) (simp add: nat_of_digits_def digit_val_digit_char)
  next
    case False
    with 1 show ?thesis
      by (subst show_nat.simps) (simp add: nat_of_digits_snoc digit_val_digit_char)
  qed
qed

lemma show_nat_zero: "show_nat 0 = ''0''"
  by (subst show_nat.simps) (simp add: digit_char_def)

lemma hd_show_nat: "0 < n \<Longrightarrow> hd (show_nat n) \<noteq> CHR ''0''"
proof (induction n rule: show_nat.induct)
  case (1 n)
  show ?case
  proof (cases "n < 10")
    case True
    with 1(2) show ?thesis
      by (subst show_nat.simps) (simp add: digit_char_zero)
  next
    case False
    then have "0 < n div 10" by simp
    with 1(1) False have "hd (show_nat (n div 10)) \<noteq> CHR ''0''" by simp
    with False show ?thesis
      by (subst show_nat.simps) (simp add: show_nat_nonempty)
  qed
qed

lemma show_nat_canonical: "show_nat n = ''0'' \<or> hd (show_nat n) \<noteq> CHR ''0''"
  using hd_show_nat[of n] show_nat_zero by (cases "n = 0") simp_all


lemma and_then_assoc: "and_then (and_then r f) g = and_then r (\<lambda>x. and_then (f x) g)"
  by (cases r) simp_all

lemma map_of_in_keys: "map_of ps k = Some c \<Longrightarrow> k \<in> fst ` set ps"
  by (metis map_of_SomeD fst_conv image_eqI)

lemma get_own_has_property: "get_own cur key = Some c \<Longrightarrow> has_property cur key = Returns True"
proof (cases cur)
  case (Obj ps)
  assume "get_own cur key = Some c"
  with Obj show ?thesis by (auto simp: map_of_in_keys split: if_splits)
next
  case (Arr xs)
  assume "get_own cur key = Some c"
  with Arr show ?thesis by (auto split: option.splits if_splits)
qed simp

lemma get_own_get_property: "get_own cur key = Some c \<Longrightarrow> get_property cur key = Returns (Some c)"
  by (cases cur) (auto split: option.splits if_splits)

lemma replace_prop_same: "map_of ps k = Some c \<Longrightarrow> replace_prop k c ps = ps"
  by (induction ps) (auto split: if_splits)

lemma set_own_same: "get_own cur key = Some c \<Longrightarrow> set_own cur key c = cur"
proof (cases cur)
  case (Obj ps)
  assume "get_own cur key = Some c"
  with Obj show ?thesis
    by (auto simp: put_prop_def map_of_in_keys replace_prop_same split: if_splits)
next
  case (Arr xs)
  assume "get_own cur key = Some c"
  with Arr show ?thesis
    by (auto simp: write_index_def list_update_same_conv split: option.splits if_splits)
qed simp

lemma graft_same: "descend path cur = Some t \<Longrightarrow> graft path cur t = cur"
proof (induction path arbitrary: cur)
  case Nil
  then show ?case by simp
next
  case (Cons key rest)
  then show ?case by (auto simp: set_own_same split: option.splits)
qed

lemma walk_step:
  "rest \<noteq> [] \<Longrightarrow> get_own cur key = Some child \<Longrightarrow>
   walk (key # rest) cur e = and_then (walk rest child e) (\<lambda>child'. Returns (set_own cur key child'))"
  by (cases rest) (simp_all add: get_own_has_property get_own_get_property)

lemma walk_prefix:
  "descend pre cur = Some c \<Longrightarrow> rest \<noteq> [] \<Longrightarrow>
   walk (pre @ rest) cur e = and_then (walk rest c e) (\<lambda>c'. Returns (graft pre cur c'))"
proof (induction pre arbitrary: cur)
  case Nil
  then show ?case by (cases "walk rest c e") simp_all
next
  case (Cons key pre)
  from Cons.prems(1) obtain child where child: "get_own cur key = Some child" "descend pre child = Some c"
    by (auto split: option.splits)
  have "walk ((key # pre) @ rest) cur e
      = and_then (walk (pre @ rest) child e) (\<lambda>child'. Returns (set_own cur key child'))"
    using walk_step[of "pre @ rest" cur key child e] child(1) Cons.prems(2) by simp
  also have "\<dots> = and_then (walk rest c e) (\<lambda>c'. Returns (set_own cur key (graft pre child c')))"
    using Cons.IH[OF child(2) Cons.prems(2)] by (simp add: and_then_assoc)
  finally show ?case using child(1) by simp
qed

lemma pair_in_keys: "(k, v) \<in> set ps \<Longrightarrow> k \<in> fst ` set ps"
  by force

lemma map_of_replace_prop:
  "map_of (replace_prop k v ps) k' = (if k' = k \<and> k \<in> fst ` set ps then Some v else map_of ps k')"
  by (induction ps) (auto dest: pair_in_keys)

lemma map_of_insert_prop: "k \<notin> fst ` set ps \<Longrightarrow> map_of (insert_prop k v ps) k' = (if k' = k then Some v else map_of ps k')"
  by (induction ps) auto

lemma map_of_put_prop: "map_of (put_prop k v ps) k' = (if k' = k then Some v else map_of ps k')"
  by (simp add: put_prop_def map_of_replace_prop map_of_insert_prop)

subsection \<open>A walk that meets \<^verbatim>\<open>null\<close>, and a walk below a missing key\<close>

lemma walk_null: "rest \<noteq> [] \<Longrightarrow> walk rest JNull e = (if length rest = 1 then Returns JNull else Throws TypeError)"
proof (cases rest)
  case Nil
  assume "rest \<noteq> []"
  with Nil show ?thesis by simp
next
  case (Cons l ls)
  then show ?thesis by (cases ls) (simp_all add: write_target_def)
qed

lemma walk_through_null:
  assumes "descend pre cur = Some JNull" "rest \<noteq> []"
  shows "walk (pre @ rest) cur e = (if length rest = 1 then Returns cur else Throws TypeError)"
  using walk_prefix[OF assms, of e] walk_null[OF assms(2), of e] graft_same[OF assms(1)]
  by simp








subsection \<open>The merge into an object at the target\<close>

lemma assign_prop_plain: "k \<noteq> ''__proto__'' \<Longrightarrow> assign_prop k s (ps, b) = (put_prop k (Scalar s) ps, b)"
  by (simp add: assign_prop_def)

lemma foldl_merge_entry:
  "''__proto__'' \<notin> fst ` set es \<Longrightarrow>
   foldl merge_entry (ps, b) es = (foldl put_entry ps (leaf_fields es), b)"
proof (induction es arbitrary: ps)
  case Nil
  then show ?case by (simp add: leaf_fields_def)
next
  case (Cons kv es)
  obtain k v where kv: "kv = (k, v)" by (cases kv)
  from Cons.prems kv have k: "k \<noteq> ''__proto__''" and es: "''__proto__'' \<notin> fst ` set es" by auto
  show ?case
  proof (cases v)
    case (Scalar s)
    then show ?thesis using kv Cons.IH[OF es] assign_prop_plain[OF k]
      by (simp add: merge_entry_def leaf_fields_def put_entry_def)
  next
    case (Arr xs)
    then show ?thesis using kv Cons.IH[OF es] by (simp add: merge_entry_def leaf_fields_def)
  next
    case (Obj qs)
    then show ?thesis using kv Cons.IH[OF es] by (simp add: merge_entry_def leaf_fields_def)
  qed
qed

lemma map_of_foldl_put_entry:
  "map_of (foldl put_entry ps es) k = (case map_of (rev es) k of Some v \<Rightarrow> Some v | None \<Rightarrow> map_of ps k)"
proof (induction es arbitrary: ps)
  case Nil
  then show ?case by simp
next
  case (Cons kv es)
  then show ?case
    by (cases kv) (simp add: put_entry_def map_of_put_prop map_add_def split: option.splits)
qed

lemma descend_append:
  "descend (pre @ rest) v = (case descend pre v of None \<Rightarrow> None | Some c \<Rightarrow> descend rest c)"
  by (induction pre arbitrary: v) (simp_all split: option.splits)

lemma graft_append:
  "descend pre cur = Some c \<Longrightarrow> graft (pre @ rest) cur v = graft pre cur (graft rest c v)"
  by (induction pre arbitrary: cur) (auto split: option.splits)

lemma get_own_set_own: "get_own cur key = Some c \<Longrightarrow> get_own (set_own cur key v) key = Some v"
proof (cases cur)
  case (Obj ps)
  assume "get_own cur key = Some c"
  with Obj show ?thesis by (auto simp: map_of_put_prop split: if_splits)
next
  case (Arr xs)
  assume "get_own cur key = Some c"
  with Arr show ?thesis by (auto simp: write_index_def split: option.splits if_splits)
qed simp

lemma descend_graft: "descend path cur = Some t \<Longrightarrow> descend path (graft path cur v) = Some v"
proof (induction path arbitrary: cur)
  case Nil
  then show ?case by simp
next
  case (Cons key rest)
  then show ?case by (auto simp: get_own_set_own split: option.splits)
qed

lemma write_target_object:
  assumes "get_own parent lastKey = Some (Obj target)"
  shows "write_target parent lastKey e
     = and_then (merge_fields target e) (\<lambda>m. Returns (set_own parent lastKey m))"
proof (cases parent)
  case (Scalar s)
  with assms show ?thesis by simp
next
  case (Arr xs)
  with get_own_get_property[OF assms] show ?thesis
    by (simp add: write_target_def del: get_property.simps set_own.simps)
next
  case (Obj ps)
  with get_own_get_property[OF assms] show ?thesis
    by (simp add: write_target_def del: get_property.simps set_own.simps)
qed


lemma walk_resolved_object:
  assumes "descend path cur = Some (Obj target)" "path \<noteq> []"
  shows "walk path cur e = and_then (merge_fields target e) (\<lambda>m. Returns (graft path cur m))"
proof -
  from assms(2) obtain pre lastKey where path: "path = pre @ [lastKey]"
    by (metis append_butlast_last_id)
  with assms(1) obtain parent where parent: "descend pre cur = Some parent"
      "get_own parent lastKey = Some (Obj target)"
    by (auto simp: descend_append split: option.splits)
  have "walk path cur e = and_then (walk [lastKey] parent e) (\<lambda>c'. Returns (graft pre cur c'))"
    unfolding path using walk_prefix[OF parent(1), of "[lastKey]" e] by simp
  also have "\<dots> = and_then (merge_fields target e) (\<lambda>m. Returns (graft pre cur (set_own parent lastKey m)))"
    by (simp add: write_target_object[OF parent(2)] and_then_assoc)
  also have "\<dots> = and_then (merge_fields target e) (\<lambda>m. Returns (graft path cur m))"
    unfolding path using parent by (simp add: graft_append)
  finally show ?thesis .
qed

subsection \<open>The claims about the write at the target\<close>

text \<open>
  What the merge computes. The document text parses, the path is not empty and resolves,
  through own properties, to an object \<open>target\<close> that is no array; the edited fields are an
  object without the key \<^verbatim>\<open>__proto__\<close>. Then \<^verbatim>\<open>updateJsonByPath\<close> returns the text of the
  document with an object \<open>merged\<close> at that path and nothing else changed. Under every key
  to which the edited fields give a scalar, \<open>merged\<close> holds that scalar (the last one, should
  a key occur twice); under every other key it holds what \<open>target\<close> holds. The example is
  the one of the specification: \<^verbatim>\<open>x.a\<close> becomes \<^verbatim>\<open>2\<close> and \<^verbatim>\<open>x.nested\<close> stays.
\<close>

theorem updateJsonByPath_merge:
  assumes "JSON_parse json = Returns obj" "path \<noteq> []" "descend path obj = Some (Obj target)"
    "''__proto__'' \<notin> fst ` set eps"
  shows "\<exists>merged.
           updateJsonByPath json (PathArray path) (Obj eps)
             = Returns (JSON_stringify (graft path obj (Obj merged)))
           \<and> descend path (graft path obj (Obj merged)) = Some (Obj merged)
           \<and> (\<forall>k. map_of merged k
                  = (case map_of (rev (leaf_fields eps)) k of Some v \<Rightarrow> Some v | None \<Rightarrow> map_of target k))"
proof -
  let ?merged = "foldl put_entry target (leaf_fields eps)"
  have m: "merge_fields target (Obj eps) = Returns (Obj ?merged)"
    by (simp add: merge_fields_def foldl_merge_entry[OF assms(4)])
  have "updateJsonByPath json (PathArray path) (Obj eps)
          = Returns (JSON_stringify (graft path obj (Obj ?merged)))"
    using assms(1,2) walk_resolved_object[OF assms(3,2), of "Obj eps"] m
    by (simp add: updateJsonByPath_def)
  moreover have "descend path (graft path obj (Obj ?merged)) = Some (Obj ?merged)"
    by (rule descend_graft[OF assms(3)])
  ultimately show ?thesis using map_of_foldl_put_entry[of target "leaf_fields eps"] by blast
qed

theorem updateJsonByPath_merge_witness:
  \<open>\<exists>merged.
      updateJsonByPath ''{"x": {"a": 1, "nested": {"z": 9}}}'' (PathArray [SKey ''x'']) (Obj [(''a'', JNum 2)])
        = Returns (JSON_stringify (Obj [(''x'', Obj merged)]))
      \<and> map_of merged ''a'' = Some (JNum 2)
      \<and> map_of merged ''nested'' = Some (Obj [(''z'', JNum 9)])\<close>
proof -
  let ?obj = "Obj [(''x'', Obj [(''a'', JNum 1), (''nested'', Obj [(''z'', JNum 9)])])]"
  have h1: \<open>JSON_parse ''{"x": {"a": 1, "nested": {"z": 9}}}'' = Returns ?obj\<close>
    by code_simp
  have h2: "[SKey ''x''] \<noteq> []" by simp
  have h3: "descend [SKey ''x''] ?obj = Some (Obj [(''a'', JNum 1), (''nested'', Obj [(''z'', JNum 9)])])"
    by simp
  have h4: "''__proto__'' \<notin> fst ` set [(''a'', JNum 2)]" by simp
  from updateJsonByPath_merge[OF h1 h2 h3 h4] obtain merged where
    m: \<open>updateJsonByPath ''{"x": {"a": 1, "nested": {"z": 9}}}'' (PathArray [SKey ''x'']) (Obj [(''a'', JNum 2)])
        = Returns (JSON_stringify (graft [SKey ''x''] ?obj (Obj merged)))\<close>
      "\<forall>k. map_of merged k
         = (case map_of (rev (leaf_fields [(''a'', JNum 2)])) k of
              Some v \<Rightarrow> Some v
            | None \<Rightarrow> map_of [(''a'', JNum 1), (''nested'', Obj [(''z'', JNum 9)])] k)"
    by blast
  have g: "graft [SKey ''x''] ?obj (Obj merged) = Obj [(''x'', Obj merged)]"
    by (simp add: put_prop_def)
  from m(2) have "map_of merged ''a'' = Some (JNum 2)" "map_of merged ''nested'' = Some (Obj [(''z'', JNum 9)])"
    by (simp_all add: leaf_fields_def)
  with m(1) g show ?thesis by auto
qed

text \<open>
  Claim C1. The claim is that every nested object or array already present at the slot
  remains structurally unchanged, and the comments of \<^verbatim>\<open>updateJsonByPath\<close> say the same
  (\<^verbatim>\<open>preserves nested objects\<close>; \<^verbatim>\<open>Preserve nested objects and arrays, only update the leaf fields\<close>).
  The merge loop tests only the type of the edited value, never what the target holds under
  the key. The document \<^verbatim>\<open>{"x": {"nested": {"z": 9}}}\<close> parses, the path \<^verbatim>\<open>["x"]\<close>
  resolves to the object \<^verbatim>\<open>{"nested": {"z": 9}}\<close>, and with the edited fields
  \<^verbatim>\<open>{"nested": 1}\<close> the returned document holds \<^verbatim>\<open>1\<close> under \<^verbatim>\<open>x.nested\<close>: the nested
  object is lost.
\<close>

theorem updateJsonByPath_merge_overwrites_child:
  \<open>JSON_parse ''{"x": {"nested": {"z": 9}}}'' = Returns (Obj [(''x'', Obj [(''nested'', Obj [(''z'', JNum 9)])])])
   \<and> descend [SKey ''x''] (Obj [(''x'', Obj [(''nested'', Obj [(''z'', JNum 9)])])])
        = Some (Obj [(''nested'', Obj [(''z'', JNum 9)])])
   \<and> updateJsonByPath ''{"x": {"nested": {"z": 9}}}'' (PathArray [SKey ''x'']) (Obj [(''nested'', JNum 1)])
        = Returns (JSON_stringify (Obj [(''x'', Obj [(''nested'', JNum 1)])]))\<close>
proof -
  have a: \<open>JSON_parse ''{"x": {"nested": {"z": 9}}}'' = Returns (Obj [(''x'', Obj [(''nested'', Obj [(''z'', JNum 9)])])])\<close>
    by code_simp
  have b: "descend [SKey ''x''] (Obj [(''x'', Obj [(''nested'', Obj [(''z'', JNum 9)])])])
        = Some (Obj [(''nested'', Obj [(''z'', JNum 9)])])"
    by simp
  have c: \<open>updateJsonByPath ''{"x": {"nested": {"z": 9}}}'' (PathArray [SKey ''x'']) (Obj [(''nested'', JNum 1)])
        = Returns (JSON_stringify (Obj [(''x'', Obj [(''nested'', JNum 1)])]))\<close>
    by code_simp
  from a b c show ?thesis by blast
qed

text \<open>
  Claim C9. The document text parses and a proper prefix \<open>pre\<close> of the path resolves, through
  own properties, to \<^verbatim>\<open>null\<close>. When exactly one selector follows, the guard
  \<^verbatim>\<open>current !== null\<close> skips the write and the result is the text of the unchanged tree;
  when more follow, \<^verbatim>\<open>key in null\<close> throws and the result is the input text. Nothing is
  created below the \<^verbatim>\<open>null\<close> and no slot is written.
\<close>

theorem updateJsonByPath_through_null:
  assumes "JSON_parse json = Returns obj" "descend pre obj = Some JNull" "rest \<noteq> []"
  shows "updateJsonByPath json (PathArray (pre @ rest)) e
           = Returns (if length rest = 1 then JSON_stringify obj else json)"
  using assms walk_through_null[OF assms(2) assms(3), of e]
  by (simp add: updateJsonByPath_def)

theorem updateJsonByPath_through_null_witness:
  \<open>JSON_parse ''{"x":null}'' = Returns (Obj [(''x'', JNull)])
   \<and> descend [SKey ''x''] (Obj [(''x'', JNull)]) = Some JNull
   \<and> updateJsonByPath ''{"x":null}'' (PathArray [SKey ''x'', SKey ''y'']) (JNum 1)
        = Returns (JSON_stringify (Obj [(''x'', JNull)]))
   \<and> updateJsonByPath ''{"x":null}'' (PathArray [SKey ''x'', SKey ''y'', SKey ''z'']) (JNum 1)
        = Returns ''{"x":null}''\<close>
proof -
  have h1: \<open>JSON_parse ''{"x":null}'' = Returns (Obj [(''x'', JNull)])\<close>
    by code_simp
  have h2: "descend [SKey ''x''] (Obj [(''x'', JNull)]) = Some JNull"
    by simp
  from updateJsonByPath_through_null[OF h1 h2, of "[SKey ''y'']" "JNum 1"]
    updateJsonByPath_through_null[OF h1 h2, of "[SKey ''y'', SKey ''z'']" "JNum 1"] h1 h2
  show ?thesis by simp
qed



subsection \<open>Reading back what \<^verbatim>\<open>JSON.stringify\<close> wrote: white space and strings\<close>

lemma skip_ws_append: "list_all is_ws ws \<Longrightarrow> skip_ws (ws @ s) = skip_ws s"
  by (simp add: skip_ws_def list_all_iff)

lemma skip_ws_token: "\<not> is_ws c \<Longrightarrow> skip_ws (c # s) = c # s"
  by (simp add: skip_ws_def)

lemma skip_ws_ws_token: "list_all is_ws ws \<Longrightarrow> \<not> is_ws c \<Longrightarrow> skip_ws (ws @ c # s) = c # s"
  by (simp add: skip_ws_append skip_ws_token)

lemma indent_ws: "list_all is_ws (indent n)"
  by (simp add: indent_def is_ws_def list_all_iff)

lemma prepend_Returns [simp]: "prepend c (Returns (s, r)) = Returns (c # s, r)"
  by (simp add: prepend_def)

lemma hex_val_digit_char: "d < 16 \<Longrightarrow> hex_val (digit_char d) = Some d"
proof -
  assume "d < 16"
  then have "d = 0 \<or> d = 1 \<or> d = 2 \<or> d = 3 \<or> d = 4 \<or> d = 5 \<or> d = 6 \<or> d = 7 \<or> d = 8
      \<or> d = 9 \<or> d = 10 \<or> d = 11 \<or> d = 12 \<or> d = 13 \<or> d = 14 \<or> d = 15"
    by arith
  then show ?thesis by (auto simp: hex_val_def digit_char_def)
qed

lemma hex4_hex2:
  "n < 32 \<Longrightarrow> hex4 (CHR ''0'') (CHR ''0'') (digit_char (n div 16)) (digit_char (n mod 16)) = Some n"
proof -
  assume n: "n < 32"
  then have a: "n div 16 < 16" and b: "n mod 16 < 16" by simp_all
  have z: "hex_val (CHR ''0'') = Some 0" by (simp add: hex_val_def)
  show ?thesis
    by (simp add: hex4_def hex_val_digit_char[OF a] hex_val_digit_char[OF b] z)
qed

lemma parse_string_u:
  "hex4 h1 h2 h3 h4 = Some n \<Longrightarrow> n < 256 \<Longrightarrow>
   parse_string (BSLASH # CHR ''u'' # h1 # h2 # h3 # h4 # s) = prepend (char_of n) (parse_string s)"
  by (subst parse_string.simps) simp

lemma parse_string_control:
  assumes "(of_char c :: nat) < 32"
  shows "parse_string (BSLASH # CHR ''u'' # CHR ''0'' # CHR ''0'' # hex2 (of_char c) @ s)
           = prepend c (parse_string s)"
proof -
  from assms have lt: "(of_char c :: nat) < 256" by simp
  have "parse_string (BSLASH # CHR ''u'' # CHR ''0'' # CHR ''0''
          # digit_char (of_char c div 16) # digit_char (of_char c mod 16) # s)
        = prepend (char_of (of_char c :: nat)) (parse_string s)"
    by (rule parse_string_u[OF hex4_hex2[OF assms] lt])
  then show ?thesis by (simp add: hex2_def)
qed

lemma parse_string_escape: "parse_string (escape_char c @ s) = prepend c (parse_string s)"
proof -
  consider (dq) "c = DQUOTE" | (bs) "c = BSLASH" | (b) "c = CHR 0x08" | (t) "c = CHR 0x09"
    | (n) "c = CHR 0x0A" | (f) "c = CHR 0x0C" | (r) "c = CHR 0x0D"
    | (ctl) "c \<noteq> DQUOTE" "c \<noteq> BSLASH" "c \<noteq> CHR 0x08" "c \<noteq> CHR 0x09" "c \<noteq> CHR 0x0A" "c \<noteq> CHR 0x0C"
        "c \<noteq> CHR 0x0D" "(of_char c :: nat) < 32"
    | (plain) "c \<noteq> DQUOTE" "c \<noteq> BSLASH" "\<not> (of_char c :: nat) < 32"
    by (cases "(of_char c :: nat) < 32") auto
  then show ?thesis
  proof cases
    case dq then show ?thesis by (simp add: escape_char_def unescape_def)
  next
    case bs then show ?thesis by (simp add: escape_char_def unescape_def)
  next
    case b then show ?thesis by (simp add: escape_char_def unescape_def)
  next
    case t then show ?thesis by (simp add: escape_char_def unescape_def)
  next
    case n then show ?thesis by (simp add: escape_char_def unescape_def)
  next
    case f then show ?thesis by (simp add: escape_char_def unescape_def)
  next
    case r then show ?thesis by (simp add: escape_char_def unescape_def)
  next
    case ctl
    then have "escape_char c = BSLASH # CHR ''u'' # CHR ''0'' # CHR ''0'' # hex2 (of_char c)"
      by (simp add: escape_char_def)
    then show ?thesis using parse_string_control[OF ctl(8), of s] by simp
  next
    case plain
    then have "escape_char c = [c]"
      by (auto simp: escape_char_def)
    then show ?thesis using plain by simp
  qed
qed

lemma parse_string_escaped: "parse_string (concat (map escape_char k) @ DQUOTE # r) = Returns (k, r)"
  by (induction k) (simp_all add: parse_string_escape)

lemma parse_string_quote: "quote k @ r = DQUOTE # concat (map escape_char k) @ DQUOTE # r"
  by (simp add: quote_def)

subsection \<open>Reading back numbers\<close>

lemma ends_value_no_digit: "ends_value rest \<Longrightarrow> takeWhile is_digit rest = []"
  by (cases rest) (auto simp: ends_value_def is_digit_def)

lemma ends_value_no_fraction: "ends_value rest \<Longrightarrow> \<not> (rest \<noteq> [] \<and> hd rest \<in> set ''.eE'')"
  by (cases rest) (auto simp: ends_value_def)

lemma takeWhile_show_nat: "ends_value rest \<Longrightarrow> takeWhile is_digit (show_nat m @ rest) = show_nat m"
  using show_nat_digits[of m] by (simp add: list_all_iff ends_value_no_digit)

lemma hd_show_nat_digit: "is_digit (hd (show_nat m))"
  using show_nat_digits[of m] show_nat_nonempty[of m] by (cases "show_nat m") simp_all

lemma hd_show_nat_not_minus: "hd (show_nat m) \<noteq> CHR ''-''"
  using hd_show_nat_digit[of m] by (auto simp: is_digit_def)

lemma parse_unsigned_show_nat:
  assumes "ends_value rest"
  shows "parse_unsigned (show_nat m @ rest) = Returns (m, rest)"
proof -
  have run: "takeWhile is_digit (show_nat m @ rest) = show_nat m"
    by (rule takeWhile_show_nat[OF assms])
  have canon: "(if show_nat m \<noteq> [] \<and> hd (show_nat m) = CHR ''0'' then ''0'' else show_nat m) = show_nat m"
    using show_nat_canonical[of m] by auto
  have "parse_unsigned (show_nat m @ rest)
      = (if show_nat m = [] then Throws SyntaxError
         else if drop (length (show_nat m)) (show_nat m @ rest) \<noteq> []
                 \<and> hd (drop (length (show_nat m)) (show_nat m @ rest)) \<in> set ''.eE'' then Unmodelled
         else Returns (nat_of_digits (show_nat m), drop (length (show_nat m)) (show_nat m @ rest)))"
    unfolding parse_unsigned_def Let_def run canon ..
  also have "\<dots> = Returns (m, rest)"
    using ends_value_no_fraction[OF assms] by (simp add: show_nat_nonempty nat_of_digits_show_nat)
  finally show ?thesis .
qed

lemma parse_number_nat:
  assumes "ends_value rest" "int m \<le> 9007199254740991"
  shows "parse_number (show_nat m @ rest) = Returns (JNum (int m), rest)"
proof -
  have neg: "\<not> (show_nat m @ rest \<noteq> [] \<and> hd (show_nat m @ rest) = CHR ''-'')"
    using hd_show_nat_not_minus[of m] show_nat_nonempty[of m] by simp
  show ?thesis
    unfolding parse_number_def using neg assms(2)
    by (simp only: if_False parse_unsigned_show_nat[OF assms(1)]) simp
qed

lemma parse_number_neg:
  assumes "ends_value rest" "int m \<le> 9007199254740991" "0 < m"
  shows "parse_number (CHR ''-'' # show_nat m @ rest) = Returns (JNum (- int m), rest)"
  unfolding parse_number_def using assms(2,3)
  by (simp add: parse_unsigned_show_nat[OF assms(1)])

lemma parse_number_show_int:
  assumes "ends_value rest" "\<bar>i\<bar> \<le> 9007199254740991"
  shows "parse_number (show_int i @ rest) = Returns (JNum i, rest)"
proof (cases "i < 0")
  case True
  then have "0 < nat (- i)" "int (nat (- i)) \<le> 9007199254740991" using assms(2) by simp_all
  from parse_number_neg[OF assms(1) this(2) this(1)] True show ?thesis
    by (simp add: show_int_def)
next
  case False
  then have "int (nat i) \<le> 9007199254740991" using assms(2) by simp
  from parse_number_nat[OF assms(1) this] False show ?thesis
    by (simp add: show_int_def)
qed

subsection \<open>Reading back scalars\<close>

lemma parse_value_empty_array:
  "skip_ws s = CHR ''['' # cs \<Longrightarrow> skip_ws cs = CHR '']'' # ds \<Longrightarrow> parse_value (Suc f) s = Returns (Arr [], ds)"
  by simp

lemma parse_value_array:
  "skip_ws s = CHR ''['' # cs \<Longrightarrow> skip_ws cs = d # ds \<Longrightarrow> d \<noteq> CHR '']'' \<Longrightarrow>
   parse_elements f cs = Returns (vs, r) \<Longrightarrow> parse_value (Suc f) s = Returns (Arr vs, r)"
  by simp

lemma parse_value_empty_object:
  "skip_ws s = CHR ''{'' # cs \<Longrightarrow> skip_ws cs = CHR ''}'' # ds \<Longrightarrow> parse_value (Suc f) s = Returns (Obj [], ds)"
  by simp

lemma parse_value_object:
  "skip_ws s = CHR ''{'' # cs \<Longrightarrow> skip_ws cs = d # ds \<Longrightarrow> d \<noteq> CHR ''}'' \<Longrightarrow>
   parse_members f cs = Returns (ms, r) \<Longrightarrow> parse_value (Suc f) s = Returns (Obj (build_object ms), r)"
  by simp

lemma parse_value_string:
  "skip_ws s = DQUOTE # cs \<Longrightarrow> parse_string cs = Returns (str, r) \<Longrightarrow>
   parse_value (Suc f) s = Returns (JStr str, r)"
  by simp

lemma parse_value_literal:
  "skip_ws s = c # cs \<Longrightarrow> c = CHR ''t'' \<or> c = CHR ''f'' \<or> c = CHR ''n'' \<Longrightarrow>
   parse_value (Suc f) s =
     (if c = CHR ''t'' then parse_literal ''true'' (JBool True) (c # cs)
      else if c = CHR ''f'' then parse_literal ''false'' (JBool False) (c # cs)
      else parse_literal ''null'' JNull (c # cs))"
  by auto

lemma parse_value_number:
  "skip_ws s = c # cs \<Longrightarrow> c = CHR ''-'' \<or> is_digit c \<Longrightarrow> parse_value (Suc f) s = parse_number (c # cs)"
  by (auto simp: is_digit_def)

lemma parse_elements_last:
  "parse_value f s = Returns (v, r) \<Longrightarrow> skip_ws r = CHR '']'' # cs \<Longrightarrow>
   parse_elements (Suc f) s = Returns ([Some v], cs)"
  by simp

lemma parse_elements_more:
  "parse_value f s = Returns (v, r) \<Longrightarrow> skip_ws r = CHR '','' # cs \<Longrightarrow>
   parse_elements f cs = Returns (vs, r') \<Longrightarrow> parse_elements (Suc f) s = Returns (Some v # vs, r')"
  by simp

lemma parse_members_last:
  "skip_ws s = DQUOTE # qs \<Longrightarrow> parse_string qs = Returns (k, r) \<Longrightarrow> skip_ws r = CHR '':'' # cs \<Longrightarrow>
   parse_value f cs = Returns (v, r') \<Longrightarrow> skip_ws r' = CHR ''}'' # ds \<Longrightarrow>
   parse_members (Suc f) s = Returns ([(k, v)], ds)"
  by simp

lemma parse_members_more:
  "skip_ws s = DQUOTE # qs \<Longrightarrow> parse_string qs = Returns (k, r) \<Longrightarrow> skip_ws r = CHR '':'' # cs \<Longrightarrow>
   parse_value f cs = Returns (v, r') \<Longrightarrow> skip_ws r' = CHR '','' # ds \<Longrightarrow>
   parse_members f ds = Returns (ms, r'') \<Longrightarrow>
   parse_members (Suc f) s = Returns ((k, v) # ms, r'')"
  by simp

lemma token_start_append: "token_start s \<Longrightarrow> token_start (s @ r)"
  by (cases s) (simp_all add: token_start_def)

lemma token_start_Cons: "token_start (c # s) = (\<not> is_ws c \<and> c \<noteq> CHR '']'' \<and> c \<noteq> CHR ''}'')"
  by (simp add: token_start_def)

lemma skip_ws_token_start:
  "token_start s \<Longrightarrow> list_all is_ws ws \<Longrightarrow> skip_ws (ws @ s @ r) = s @ r"
  by (cases s) (simp_all add: token_start_def skip_ws_ws_token)

lemma token_start_not_closing:
  "token_start s \<Longrightarrow> \<exists>d ds. s @ r = d # ds \<and> d \<noteq> CHR '']'' \<and> d \<noteq> CHR ''}''"
  by (cases s) (simp_all add: token_start_def)

lemma digit_not_ws: "is_digit c \<Longrightarrow> \<not> is_ws c \<and> c \<noteq> CHR '']'' \<and> c \<noteq> CHR ''}''"
  by (auto simp: is_digit_def is_ws_def)

lemma token_start_show_nat: "token_start (show_nat m)"
  using hd_show_nat_digit[of m] show_nat_nonempty[of m] digit_not_ws[of "hd (show_nat m)"]
  by (simp add: token_start_def)

lemma token_start_scalar: "token_start (stringify_scalar s)"
proof (cases s)
  case (SNum i)
  then show ?thesis using token_start_show_nat
    by (simp add: show_int_def token_start_Cons is_ws_def)
qed (simp_all add: token_start_def is_ws_def quote_def)

lemma token_start_stringify: "token_start (stringify n v)"
proof (cases v)
  case (Scalar s)
  then show ?thesis by (simp add: token_start_scalar)
next
  case (Arr xs)
  then show ?thesis by (cases xs) (simp_all add: token_start_def is_ws_def)
next
  case (Obj ps)
  then show ?thesis by (cases ps) (simp_all add: token_start_def is_ws_def)
qed

lemma token_start_elems: "xs \<noteq> [] \<Longrightarrow> token_start (stringify_elems n xs)"
proof (cases xs)
  case Nil
  assume "xs \<noteq> []"
  with Nil show ?thesis by simp
next
  case (Cons x xs')
  show ?thesis
  proof (cases x)
    case None
    with Cons show ?thesis by (simp add: token_start_def is_ws_def)
  next
    case (Some v)
    with Cons show ?thesis using token_start_append[OF token_start_stringify[of n v]] by simp
  qed
qed

lemma parse_value_scalar:
  assumes "safe_scalar s" "list_all is_ws ws" "ends_value rest"
  shows "parse_value (Suc f) (ws @ stringify_scalar s @ rest) = Returns (Scalar s, rest)"
proof (cases s)
  case SNull
  have "skip_ws (ws @ ''null'' @ rest) = CHR ''n'' # ''ull'' @ rest"
    using skip_ws_token_start[OF token_start_scalar[of SNull] assms(2), of rest] by simp
  from parse_value_literal[OF this, of f] SNull show ?thesis
    by (simp add: parse_literal_def)
next
  case (SBool b)
  show ?thesis
  proof (cases b)
    case True
    have "skip_ws (ws @ ''true'' @ rest) = CHR ''t'' # ''rue'' @ rest"
      using skip_ws_token_start[OF token_start_scalar[of "SBool True"] assms(2), of rest] by simp
    from parse_value_literal[OF this, of f] SBool True show ?thesis
      by (simp add: parse_literal_def)
  next
    case False
    have "skip_ws (ws @ ''false'' @ rest) = CHR ''f'' # ''alse'' @ rest"
      using skip_ws_token_start[OF token_start_scalar[of "SBool False"] assms(2), of rest] by simp
    from parse_value_literal[OF this, of f] SBool False show ?thesis
      by (simp add: parse_literal_def)
  qed
next
  case (SNum i)
  with assms(1) have safe: "\<bar>i\<bar> \<le> 9007199254740991" by simp
  obtain c cs where ccs: "show_int i = c # cs" "c = CHR ''-'' \<or> is_digit c"
  proof (cases "i < 0")
    case True
    then have "show_int i = CHR ''-'' # show_nat (nat (- i))" by (simp add: show_int_def)
    then show ?thesis using that by blast
  next
    case False
    then have "show_int i = show_nat (nat i)" by (simp add: show_int_def)
    moreover obtain c cs where "show_nat (nat i) = c # cs"
      using show_nat_nonempty[of "nat i"] by (cases "show_nat (nat i)") auto
    ultimately show ?thesis using that hd_show_nat_digit[of "nat i"] by auto
  qed
  have "skip_ws (ws @ show_int i @ rest) = c # cs @ rest"
    using skip_ws_token_start[OF token_start_scalar[of "SNum i"] assms(2), of rest] ccs(1) by simp
  from parse_value_number[OF this ccs(2), of f] ccs(1) parse_number_show_int[OF assms(3) safe] SNum
  show ?thesis by simp
next
  case (SStr str)
  have "skip_ws (ws @ quote str @ rest) = DQUOTE # concat (map escape_char str) @ DQUOTE # rest"
    using skip_ws_token_start[OF token_start_scalar[of "SStr str"] assms(2), of rest]
    by (simp add: quote_def)
  from parse_value_string[OF this parse_string_escaped, of f] SStr show ?thesis by simp
qed

subsection \<open>Own-property order\<close>

lemma comes_before_trans: "comes_before a b \<Longrightarrow> comes_before b c \<Longrightarrow> comes_before a c"
  by (auto simp: comes_before_def split: option.splits)

lemma comes_before_asym: "comes_before a b \<Longrightarrow> \<not> comes_before b a"
  by (auto simp: comes_before_def split: option.splits)

lemma insert_prop_append:
  "(\<And>a. a \<in> fst ` set qs \<Longrightarrow> \<not> comes_before k a) \<Longrightarrow> insert_prop k v qs = qs @ [(k, v)]"
proof (induction qs)
  case Nil
  then show ?case by simp
next
  case (Cons q qs)
  obtain k' v' where q: "q = (k', v')" by (cases q)
  from Cons.prems[of k'] q have "\<not> comes_before k k'" by simp
  moreover have "insert_prop k v qs = qs @ [(k, v)]"
    using Cons.prems by (intro Cons.IH) simp
  ultimately show ?case using q by simp
qed

lemma build_object_append:
  "own_order (map fst (qs @ ps)) \<Longrightarrow> foldl (\<lambda>ps (k, v). put_prop k v ps) qs ps = qs @ ps"
proof (induction ps arbitrary: qs)
  case Nil
  then show ?case by simp
next
  case (Cons p ps)
  obtain k v where p: "p = (k, v)" by (cases p)
  from Cons.prems p have notin: "k \<notin> fst ` set qs"
    and before: "\<And>a. a \<in> fst ` set qs \<Longrightarrow> \<not> comes_before k a"
    by (auto simp: own_order_def sorted_wrt_append)
  have "put_prop k v qs = qs @ [(k, v)]"
    using notin insert_prop_append[of qs k v] before by (simp add: put_prop_def)
  moreover have "own_order (map fst ((qs @ [(k, v)]) @ ps))"
    using Cons.prems p by simp
  ultimately show ?case using Cons.IH[of "qs @ [(k, v)]"] p by simp
qed

lemma build_object_own_order: "own_order (map fst ps) \<Longrightarrow> build_object ps = ps"
  using build_object_append[of "[]" ps] by (simp add: build_object_def)

lemma own_order_insert_prop:
  "own_order (map fst ps) \<Longrightarrow> k \<notin> fst ` set ps \<Longrightarrow> own_order (map fst (insert_prop k v ps))"
proof (induction ps)
  case Nil
  then show ?case by (simp add: own_order_def)
next
  case (Cons p ps)
  obtain k' v' where p: "p = (k', v')" by (cases p)
  from Cons.prems p have tail: "own_order (map fst ps)" and kk': "k \<noteq> k'" and notin: "k \<notin> fst ` set ps"
    and k'notin: "k' \<notin> fst ` set ps"
    and sorted: "\<And>x. x \<in> fst ` set ps \<Longrightarrow> \<not> comes_before x k'"
    by (auto simp: own_order_def)
  show ?case
  proof (cases "comes_before k k'")
    case True
    have "\<And>x. x \<in> fst ` set ps \<Longrightarrow> \<not> comes_before x k"
      using sorted comes_before_trans[OF _ True] by blast
    with True Cons.prems p kk' notin comes_before_asym[OF True] show ?thesis
      by (auto simp: own_order_def)
  next
    case False
    have keys: "fst ` set (insert_prop k v ps) = insert k (fst ` set ps)"
      by (rule keys_insert_prop)
    from Cons.IH[OF tail notin] have ih: "own_order (map fst (insert_prop k v ps))" .
    from False p have "map fst (insert_prop k v (p # ps)) = k' # map fst (insert_prop k v ps)"
      by simp
    moreover have "k' \<notin> set (map fst (insert_prop k v ps))"
      using keys kk' k'notin by simp
    moreover have "\<And>x. x \<in> set (map fst (insert_prop k v ps)) \<Longrightarrow> \<not> comes_before x k'"
      using keys False sorted by auto
    ultimately show ?thesis using ih by (auto simp: own_order_def)
  qed
qed

lemma own_order_put_prop: "own_order (map fst ps) \<Longrightarrow> own_order (map fst (put_prop k v ps))"
  by (simp add: put_prop_def map_fst_replace_prop own_order_insert_prop)

lemma set_replace_prop: "set (replace_prop k v ps) \<subseteq> insert (k, v) (set ps)"
  by (induction ps) (auto split: if_splits)

lemma set_insert_prop: "set (insert_prop k v ps) = insert (k, v) (set ps)"
  by (induction ps) (auto split: if_splits)

lemma set_put_prop: "set (put_prop k v ps) \<subseteq> insert (k, v) (set ps)"
  using set_replace_prop[of k v ps] by (auto simp: put_prop_def set_insert_prop)



subsection \<open>Reading back arrays and objects\<close>

lemma length_indent [simp]: "length (indent n) = 2 * n"
  by (simp add: indent_def)

lemma ws_newline_indent: "list_all is_ws (NEWLINE # indent n)"
  using indent_ws[of n] by (simp add: is_ws_def)

lemma ends_value_simps [simp]:
  "ends_value (NEWLINE # s)" "ends_value (CHR '','' # s)" "ends_value []"
  by (simp_all add: ends_value_def)

lemma map_fst_fill_members: "map fst (fill_members ps) = map fst ps"
  by (induction ps) auto

lemma read_array:
  assumes elems: "\<And>f ws ws' rest. 2 * length (stringify_elems (Suc n) (x # xs)) + 1 \<le> f \<Longrightarrow>
             list_all is_ws ws \<Longrightarrow> list_all is_ws ws' \<Longrightarrow>
             parse_elements f (ws @ stringify_elems (Suc n) (x # xs) @ NEWLINE # ws' @ CHR '']'' # rest)
               = Returns (vs, rest)"
    and fuel: "2 * length (stringify n (Arr (x # xs))) \<le> f"
    and ws: "list_all is_ws ws"
  shows "parse_value f (ws @ stringify n (Arr (x # xs)) @ rest) = Returns (Arr vs, rest)"
proof -
  let ?E = "stringify_elems (Suc n) (x # xs)"
  let ?tail = "NEWLINE # indent n @ CHR '']'' # rest"
  let ?cs = "(NEWLINE # indent (Suc n)) @ ?E @ ?tail"
  from fuel obtain g where f: "f = Suc g" "2 * length ?E + 1 \<le> g"
    by (cases f) simp_all
  have shape: "ws @ stringify n (Arr (x # xs)) @ rest = ws @ CHR ''['' # ?cs"
    by simp
  have s1: "skip_ws (ws @ CHR ''['' # ?cs) = CHR ''['' # ?cs"
    by (rule skip_ws_ws_token[OF ws]) (simp add: is_ws_def)
  have tok: "token_start ?E" by (rule token_start_elems) simp
  have s2: "skip_ws ?cs = ?E @ ?tail"
    by (rule skip_ws_token_start[OF tok ws_newline_indent])
  from token_start_not_closing[OF tok, of ?tail] obtain d ds where
    d: "?E @ ?tail = d # ds" "d \<noteq> CHR '']''" by blast
  have pe: "parse_elements g ?cs = Returns (vs, rest)"
    by (rule elems[OF f(2) ws_newline_indent indent_ws])
  from s2 d(1) have s3: "skip_ws ?cs = d # ds" by (rule trans)
  show ?thesis
    unfolding shape f(1) by (rule parse_value_array[OF s1 s3 d(2) pe])
qed

lemma read_object:
  assumes members: "\<And>f ws ws' rest. 2 * length (stringify_members (Suc n) (p # ps)) + 1 \<le> f \<Longrightarrow>
             list_all is_ws ws \<Longrightarrow> list_all is_ws ws' \<Longrightarrow>
             parse_members f (ws @ stringify_members (Suc n) (p # ps) @ NEWLINE # ws' @ CHR ''}'' # rest)
               = Returns (ms, rest)"
    and fuel: "2 * length (stringify n (Obj (p # ps))) \<le> f"
    and ws: "list_all is_ws ws"
  shows "parse_value f (ws @ stringify n (Obj (p # ps)) @ rest) = Returns (Obj (build_object ms), rest)"
proof -
  let ?E = "stringify_members (Suc n) (p # ps)"
  let ?tail = "NEWLINE # indent n @ CHR ''}'' # rest"
  let ?cs = "(NEWLINE # indent (Suc n)) @ ?E @ ?tail"
  from fuel obtain g where f: "f = Suc g" "2 * length ?E + 1 \<le> g"
    by (cases f) simp_all
  have shape: "ws @ stringify n (Obj (p # ps)) @ rest = ws @ CHR ''{'' # ?cs"
    by simp
  have s1: "skip_ws (ws @ CHR ''{'' # ?cs) = CHR ''{'' # ?cs"
    by (rule skip_ws_ws_token[OF ws]) (simp add: is_ws_def)
  obtain k v where p: "p = (k, v)" by (cases p)
  obtain es where es: "?E @ ?tail = DQUOTE # es"
    using p by (simp add: quote_def)
  have tok: "token_start ?E" using p by (simp add: quote_def token_start_def is_ws_def)
  have s2: "skip_ws ?cs = ?E @ ?tail"
    by (rule skip_ws_token_start[OF tok ws_newline_indent])
  have pe: "parse_members g ?cs = Returns (ms, rest)"
    by (rule members[OF f(2) ws_newline_indent indent_ws])
  from s2 es have s3: "skip_ws ?cs = DQUOTE # es" by (rule trans)
  have nb: "DQUOTE \<noteq> CHR ''}''" by simp
  show ?thesis
    unfolding shape f(1) by (rule parse_value_object[OF s1 s3 nb pe])
qed


lemma read_elements_step:
  assumes val: "\<And>tail. ends_value tail \<Longrightarrow> parse_value g (ws @ t @ tail) = Returns (v, tail)"
    and more: "xs \<noteq> [] \<Longrightarrow>
       parse_elements g ((NEWLINE # indent n) @ stringify_elems n xs @ NEWLINE # ws' @ CHR '']'' # rest)
         = Returns (vs, rest)"
    and ws': "list_all is_ws ws'"
  shows "parse_elements (Suc g)
           (ws @ (t @ (if xs = [] then [] else CHR '','' # NEWLINE # indent n @ stringify_elems n xs))
               @ NEWLINE # ws' @ CHR '']'' # rest)
         = Returns (Some v # (if xs = [] then [] else vs), rest)"
proof (cases "xs = []")
  case True
  let ?tail = "NEWLINE # ws' @ CHR '']'' # rest"
  have v: "parse_value g (ws @ t @ ?tail) = Returns (v, ?tail)"
    by (rule val) simp
  have "list_all is_ws (NEWLINE # ws')" using ws' by (simp add: is_ws_def)
  from skip_ws_ws_token[OF this, of "CHR '']''" rest]
  have sk: "skip_ws ?tail = CHR '']'' # rest" by (simp add: is_ws_def)
  from parse_elements_last[OF v sk] True show ?thesis by simp
next
  case False
  let ?cs = "(NEWLINE # indent n) @ stringify_elems n xs @ NEWLINE # ws' @ CHR '']'' # rest"
  let ?tail = "CHR '','' # ?cs"
  have v: "parse_value g (ws @ t @ ?tail) = Returns (v, ?tail)"
    by (rule val) simp
  have sk: "skip_ws ?tail = CHR '','' # ?cs"
    by (rule skip_ws_token) (simp add: is_ws_def)
  from parse_elements_more[OF v sk more[OF False]] False show ?thesis by simp
qed

lemma read_members_step:
  assumes val: "\<And>tail. ends_value tail \<Longrightarrow> parse_value g ([CHR '' ''] @ t @ tail) = Returns (v, tail)"
    and more: "ps \<noteq> [] \<Longrightarrow>
       parse_members g ((NEWLINE # indent n) @ stringify_members n ps @ NEWLINE # ws' @ CHR ''}'' # rest)
         = Returns (ms, rest)"
    and ws: "list_all is_ws ws" and ws': "list_all is_ws ws'"
  shows "parse_members (Suc g)
           (ws @ (quote k @ CHR '':'' # CHR '' '' # t
                   @ (if ps = [] then [] else CHR '','' # NEWLINE # indent n @ stringify_members n ps))
               @ NEWLINE # ws' @ CHR ''}'' # rest)
         = Returns ((k, v) # (if ps = [] then [] else ms), rest)"
proof -
  define tail where "tail = (if ps = [] then [] else CHR '','' # NEWLINE # indent n @ stringify_members n ps)
       @ NEWLINE # ws' @ CHR ''}'' # rest"
  let ?r = "CHR '':'' # [CHR '' ''] @ t @ tail"
  let ?qs = "concat (map escape_char k) @ DQUOTE # ?r"
  have shape: "ws @ (quote k @ CHR '':'' # CHR '' '' # t
                   @ (if ps = [] then [] else CHR '','' # NEWLINE # indent n @ stringify_members n ps))
               @ NEWLINE # ws' @ CHR ''}'' # rest = ws @ DQUOTE # ?qs"
    by (simp add: quote_def tail_def)
  have s1: "skip_ws (ws @ DQUOTE # ?qs) = DQUOTE # ?qs"
    by (rule skip_ws_ws_token[OF ws]) (simp add: is_ws_def)
  have str: "parse_string ?qs = Returns (k, ?r)"
    by (rule parse_string_escaped)
  have s2: "skip_ws ?r = CHR '':'' # [CHR '' ''] @ t @ tail"
    by (rule skip_ws_token) (simp add: is_ws_def)
  have ev: "ends_value tail" by (simp add: tail_def)
  have v: "parse_value g ([CHR '' ''] @ t @ tail) = Returns (v, tail)"
    by (rule val[OF ev])
  show ?thesis
  proof (cases "ps = []")
    case True
    have "list_all is_ws (NEWLINE # ws')" using ws' by (simp add: is_ws_def)
    from skip_ws_ws_token[OF this, of "CHR ''}''" rest] True
    have sk: "skip_ws tail = CHR ''}'' # rest" by (simp add: is_ws_def tail_def)
    from parse_members_last[OF s1 str s2 v sk] True show ?thesis
      unfolding shape by simp
  next
    case False
    let ?cs = "(NEWLINE # indent n) @ stringify_members n ps @ NEWLINE # ws' @ CHR ''}'' # rest"
    have t: "tail = CHR '','' # ?cs" using False by (simp add: tail_def)
    have sk: "skip_ws tail = CHR '','' # ?cs"
      unfolding t by (rule skip_ws_token) (simp add: is_ws_def)
    from parse_members_more[OF s1 str s2 v sk more[OF False]] False show ?thesis
      unfolding shape by simp
  qed
qed


lemma stringify_scalar_nonempty: "stringify_scalar s \<noteq> []"
  using token_start_scalar[of s] by (simp add: token_start_def)

lemma stringify_nonempty: "stringify n v \<noteq> []"
  using token_start_stringify[of n v] by (simp add: token_start_def)

lemma read_back:
  shows "\<And>f ws rest. serializable v \<Longrightarrow> 2 * length (stringify n v) \<le> f \<Longrightarrow> list_all is_ws ws \<Longrightarrow>
           ends_value rest \<Longrightarrow> parse_value f (ws @ stringify n v @ rest) = Returns (fill v, rest)"
    and "\<And>f ws ws' rest. xs \<noteq> [] \<Longrightarrow> serializable_elems xs \<Longrightarrow>
           2 * length (stringify_elems n xs) + 1 \<le> f \<Longrightarrow> list_all is_ws ws \<Longrightarrow> list_all is_ws ws' \<Longrightarrow>
           parse_elements f (ws @ stringify_elems n xs @ NEWLINE # ws' @ CHR '']'' # rest)
             = Returns (fill_elems xs, rest)"
    and "\<And>f ws ws' rest. ps \<noteq> [] \<Longrightarrow> serializable_members ps \<Longrightarrow>
           2 * length (stringify_members n ps) + 1 \<le> f \<Longrightarrow> list_all is_ws ws \<Longrightarrow> list_all is_ws ws' \<Longrightarrow>
           parse_members f (ws @ stringify_members n ps @ NEWLINE # ws' @ CHR ''}'' # rest)
             = Returns (fill_members ps, rest)"
proof (induction n v and n xs and n ps rule: stringify_stringify_elems_stringify_members.induct)
  case (1 n s)
  from 1(2) stringify_scalar_nonempty[of s] obtain g where g: "f = Suc g"
    by (cases f) simp_all
  from 1(1) have "safe_scalar s" by simp
  from parse_value_scalar[OF this 1(3) 1(4), of g] g show ?case by simp
next
  case (2 n)
  from 2(2) obtain g where g: "f = Suc g" by (cases f) simp_all
  have s1: "skip_ws (ws @ CHR ''['' # CHR '']'' # rest) = CHR ''['' # CHR '']'' # rest"
    by (rule skip_ws_ws_token[OF 2(3)]) (simp add: is_ws_def)
  have s2: "skip_ws (CHR '']'' # rest) = CHR '']'' # rest"
    by (rule skip_ws_token) (simp add: is_ws_def)
  from parse_value_empty_array[OF s1 s2, of g] g show ?case by simp
next
  case (3 n x xs)
  have "parse_value f (ws @ stringify n (Arr (x # xs)) @ rest) = Returns (Arr (fill_elems (x # xs)), rest)"
  proof (rule read_array[OF _ 3(3) 3(4)])
    fix f ws ws' rest
    assume "2 * length (stringify_elems (Suc n) (x # xs)) + 1 \<le> f" "list_all is_ws ws" "list_all is_ws ws'"
    with 3(1)[of f ws ws' rest] 3(2)
    show "parse_elements f (ws @ stringify_elems (Suc n) (x # xs) @ NEWLINE # ws' @ CHR '']'' # rest)
            = Returns (fill_elems (x # xs), rest)"
      by simp
  qed
  then show ?case by simp
next
  case (4 n)
  from 4(2) obtain g where g: "f = Suc g" by (cases f) simp_all
  have s1: "skip_ws (ws @ CHR ''{'' # CHR ''}'' # rest) = CHR ''{'' # CHR ''}'' # rest"
    by (rule skip_ws_ws_token[OF 4(3)]) (simp add: is_ws_def)
  have s2: "skip_ws (CHR ''}'' # rest) = CHR ''}'' # rest"
    by (rule skip_ws_token) (simp add: is_ws_def)
  from parse_value_empty_object[OF s1 s2, of g] g show ?case by simp
next
  case (5 n p ps)
  have "parse_value f (ws @ stringify n (Obj (p # ps)) @ rest)
          = Returns (Obj (build_object (fill_members (p # ps))), rest)"
  proof (rule read_object[OF _ 5(3) 5(4)])
    fix f ws ws' rest
    assume "2 * length (stringify_members (Suc n) (p # ps)) + 1 \<le> f" "list_all is_ws ws" "list_all is_ws ws'"
    with 5(1)[of f ws ws' rest] 5(2)
    show "parse_members f (ws @ stringify_members (Suc n) (p # ps) @ NEWLINE # ws' @ CHR ''}'' # rest)
            = Returns (fill_members (p # ps), rest)"
      by simp
  qed
  moreover from 5(2) have "own_order (map fst (fill_members (p # ps)))"
    by (simp only: map_fst_fill_members serializable.simps)
  ultimately show ?case by (simp add: build_object_own_order)
next
  case (6 n)
  then show ?case by simp
next
  case (7 n xs)
  from 7(4) obtain g where g: "f = Suc g" "2 * length (stringify_elems n xs) + 1 \<le> g" "0 < g"
    by (cases f) (auto split: if_splits)
  then obtain h where h: "g = Suc h" by (cases g) simp_all
  have "parse_elements (Suc g)
           (ws @ (''null'' @ (if xs = [] then [] else CHR '','' # NEWLINE # indent n @ stringify_elems n xs))
               @ NEWLINE # ws' @ CHR '']'' # rest)
         = Returns (Some JNull # (if xs = [] then [] else fill_elems xs), rest)"
  proof (rule read_elements_step[OF _ _ 7(6)])
    fix tail
    assume "ends_value tail"
    from parse_value_scalar[OF _ 7(5) this, of SNull h] h
    show "parse_value g (ws @ ''null'' @ tail) = Returns (JNull, tail)" by simp
  next
    assume ne: "xs \<noteq> []"
    from 7(3) have "serializable_elems xs" by simp
    from 7(1)[OF ne ne this g(2) ws_newline_indent 7(6)]
    show "parse_elements g ((NEWLINE # indent n) @ stringify_elems n xs @ NEWLINE # ws' @ CHR '']'' # rest)
            = Returns (fill_elems xs, rest)" .
  qed
  then show ?case using g(1) by (cases "xs = []") simp_all
next
  case (8 n v xs)
  from 8(5) obtain g where g: "f = Suc g" "2 * length (stringify n v) \<le> g"
      "2 * length (stringify_elems n xs) + 1 \<le> g \<or> xs = []"
    by (cases f) (auto split: if_splits)
  from 8(4) have sv: "serializable v" and sxs: "serializable_elems xs" by simp_all
  have "parse_elements (Suc g)
           (ws @ (stringify n v @ (if xs = [] then [] else CHR '','' # NEWLINE # indent n @ stringify_elems n xs))
               @ NEWLINE # ws' @ CHR '']'' # rest)
         = Returns (Some (fill v) # (if xs = [] then [] else fill_elems xs), rest)"
  proof (rule read_elements_step[OF _ _ 8(7)])
    fix tail
    assume "ends_value tail"
    from 8(1)[OF sv g(2) 8(6) this]
    show "parse_value g (ws @ stringify n v @ tail) = Returns (fill v, tail)" .
  next
    assume ne: "xs \<noteq> []"
    with g(3) have "2 * length (stringify_elems n xs) + 1 \<le> g" by simp
    from 8(2)[OF ne ne sxs this ws_newline_indent 8(7)]
    show "parse_elements g ((NEWLINE # indent n) @ stringify_elems n xs @ NEWLINE # ws' @ CHR '']'' # rest)
            = Returns (fill_elems xs, rest)" .
  qed
  then show ?case using g(1) by (cases "xs = []") simp_all
next
  case (9 n)
  then show ?case by simp
next
  case (10 n k v ps)
  from 10(5) obtain g where g: "f = Suc g" "2 * length (stringify n v) \<le> g"
      "2 * length (stringify_members n ps) + 1 \<le> g \<or> ps = []"
    by (cases f) (auto split: if_splits)
  from 10(4) have sv: "serializable v" and sps: "serializable_members ps" by simp_all
  have "parse_members (Suc g)
           (ws @ (quote k @ CHR '':'' # CHR '' '' # stringify n v
                   @ (if ps = [] then [] else CHR '','' # NEWLINE # indent n @ stringify_members n ps))
               @ NEWLINE # ws' @ CHR ''}'' # rest)
         = Returns ((k, fill v) # (if ps = [] then [] else fill_members ps), rest)"
  proof (rule read_members_step[OF _ _ 10(6) 10(7)])
    fix tail
    assume ev: "ends_value tail"
    have "list_all is_ws [CHR '' '']" by (simp add: is_ws_def)
    from 10(1)[OF sv g(2) this ev]
    show "parse_value g ([CHR '' ''] @ stringify n v @ tail) = Returns (fill v, tail)" .
  next
    assume ne: "ps \<noteq> []"
    with g(3) have "2 * length (stringify_members n ps) + 1 \<le> g" by simp
    from 10(2)[OF ne ne sps this ws_newline_indent 10(7)]
    show "parse_members g ((NEWLINE # indent n) @ stringify_members n ps @ NEWLINE # ws' @ CHR ''}'' # rest)
            = Returns (fill_members ps, rest)" .
  qed
  then show ?case using g(1) by (cases "ps = []") simp_all
qed

lemma JSON_parse_stringify: "serializable v \<Longrightarrow> JSON_parse (JSON_stringify v) = Returns (fill v)"
  using read_back(1)[of v 0 "2 * length (stringify 0 v) + 2" "[]" "[]"]
  by (simp add: JSON_parse_def JSON_stringify_def skip_ws_def)

subsection \<open>What \<^verbatim>\<open>JSON.parse\<close> returns\<close>





lemma own_order_Nil: "own_order []"
  by (simp add: own_order_def)






subsection \<open>The object built from rows, read back\<close>

lemma add_row_plain:
  "row_key r \<noteq> Some ''__proto__'' \<Longrightarrow>
   add_row (ps, b) r = (if kept_row r then put_entry ps (row_entry r) else ps, b)"
  by (auto simp: add_row_def kept_row_def truthy_key_def row_entry_def put_entry_def assign_prop_def
      split: option.splits)

lemma foldl_add_row_plain:
  "list_all (\<lambda>r. row_key r \<noteq> Some ''__proto__'') rows \<Longrightarrow>
   foldl add_row (ps, b) rows = (foldl put_entry ps (map row_entry (filter kept_row rows)), b)"
  by (induction rows arbitrary: ps) (simp_all add: add_row_plain)

lemma own_order_assign_prop:
  "own_order (map fst (fst st)) \<Longrightarrow> own_order (map fst (fst (assign_prop k v st)))"
  by (cases st) (simp add: assign_prop_def own_order_put_prop)

lemma own_order_add_row: "own_order (map fst (fst st)) \<Longrightarrow> own_order (map fst (fst (add_row st r)))"
  by (simp add: add_row_def own_order_assign_prop split: option.splits)

lemma own_order_foldl_add_row:
  "own_order (map fst (fst st)) \<Longrightarrow> own_order (map fst (fst (foldl add_row st rows)))"
  by (induction rows arbitrary: st) (simp_all add: own_order_add_row)

lemma own_order_rows_object: "own_order (map fst (rows_object rows))"
  using own_order_foldl_add_row[of "([], False)" rows] by (simp add: rows_object_def own_order_Nil)

lemma scalar_entries_serializable: "scalar_entries ps \<Longrightarrow> serializable_members ps \<and> fill_members ps = ps"
proof (induction ps)
  case Nil
  then show ?case by simp
next
  case (Cons p ps)
  obtain k v where "p = (k, v)" by (cases p)
  with Cons show ?case by (cases v) (simp_all add: scalar_entries_def)
qed

lemma scalar_entries_put_prop:
  "scalar_entries ps \<Longrightarrow> safe_scalar s \<Longrightarrow> scalar_entries (put_prop k (Scalar s) ps)"
  using set_put_prop[of k "Scalar s" ps] by (auto simp: scalar_entries_def list_all_iff)

lemma scalar_entries_assign_prop:
  "scalar_entries (fst st) \<Longrightarrow> safe_scalar s \<Longrightarrow> scalar_entries (fst (assign_prop k s st))"
  by (cases st) (simp add: assign_prop_def scalar_entries_put_prop)

lemma scalar_entries_add_row:
  "scalar_entries (fst st) \<Longrightarrow> safe_scalar (row_value r) \<Longrightarrow> scalar_entries (fst (add_row st r))"
  by (simp add: add_row_def scalar_entries_assign_prop split: option.splits)

lemma scalar_entries_foldl_add_row:
  "scalar_entries (fst st) \<Longrightarrow> list_all (\<lambda>r. safe_scalar (row_value r)) rows \<Longrightarrow>
   scalar_entries (fst (foldl add_row st rows))"
  by (induction rows arbitrary: st) (simp_all add: scalar_entries_add_row)

lemma rows_object_read_back:
  assumes "list_all (\<lambda>r. safe_scalar (row_value r)) rows"
  shows "JSON_parse (JSON_stringify (Obj (rows_object rows))) = Returns (Obj (rows_object rows))"
proof -
  have "scalar_entries (rows_object rows)"
    using scalar_entries_foldl_add_row[of "([], False)" rows] assms
    by (simp add: rows_object_def scalar_entries_def)
  from scalar_entries_serializable[OF this] own_order_rows_object[of rows]
  have "serializable (Obj (rows_object rows))" "fill (Obj (rows_object rows)) = Obj (rows_object rows)"
    by simp_all
  with JSON_parse_stringify[of "Obj (rows_object rows)"] show ?thesis by simp
qed

text \<open>
  Claim C7, as amended. The sequence of rows is not empty and is not a single row whose key
  is absent or the empty string; no row has the key \<^verbatim>\<open>__proto__\<close>, and the numbers among
  the values are integers within the safe range. Then \<^verbatim>\<open>normalizeNodeData\<close> produces the text of
  \<^verbatim>\<open>JSON.stringify(obj, null, 2)\<close> for an object that \<^verbatim>\<open>JSON.parse\<close> reads back, and
  that object maps exactly the keys of the kept rows (a non-empty key, a type other than
  \<^verbatim>\<open>"array"\<close> and \<^verbatim>\<open>"object"\<close>), each to the value of the last kept row with that key.
\<close>

theorem normalizeNodeData_reparses:
  assumes "rows \<noteq> []" "\<not> (length rows = 1 \<and> \<not> truthy_key (row_key (hd rows)))"
    "list_all (\<lambda>r. row_key r \<noteq> Some ''__proto__'') rows"
    "list_all (\<lambda>r. safe_scalar (row_value r)) rows"
  shows "normalizeNodeData rows = JSON_stringify (Obj (rows_object rows))
       \<and> JSON_parse (normalizeNodeData rows) = Returns (Obj (rows_object rows))
       \<and> (\<forall>k. map_of (rows_object rows) k = map_of (rev (map row_entry (filter kept_row rows))) k)"
proof -
  from assms(1,2) have n: "normalizeNodeData rows = JSON_stringify (Obj (rows_object rows))"
    by (cases rows) (auto simp: normalizeNodeData_def)
  have "rows_object rows = foldl put_entry [] (map row_entry (filter kept_row rows))"
    by (simp add: rows_object_def foldl_add_row_plain[OF assms(3)])
  then have "map_of (rows_object rows) k = map_of (rev (map row_entry (filter kept_row rows))) k" for k
    by (simp add: map_of_foldl_put_entry split: option.splits)
  with n rows_object_read_back[OF assms(4)] show ?thesis by simp
qed

theorem normalizeNodeData_reparses_witness:
  "JSON_parse (normalizeNodeData
       [\<lparr>row_key = Some ''a'', row_value = SNum 1, row_type = ''number''\<rparr>,
        \<lparr>row_key = Some ''b'', row_value = SNull, row_type = ''array''\<rparr>,
        \<lparr>row_key = None, row_value = SStr ''x'', row_type = ''string''\<rparr>,
        \<lparr>row_key = Some ''c'', row_value = SStr ''s'', row_type = ''string''\<rparr>])
     = Returns (Obj [(''a'', JNum 1), (''c'', JStr ''s'')])"
proof -
  let ?rows = "[\<lparr>row_key = Some ''a'', row_value = SNum 1, row_type = ''number''\<rparr>,
        \<lparr>row_key = Some ''b'', row_value = SNull, row_type = ''array''\<rparr>,
        \<lparr>row_key = None, row_value = SStr ''x'', row_type = ''string''\<rparr>,
        \<lparr>row_key = Some ''c'', row_value = SStr ''s'', row_type = ''string''\<rparr>]"
  have h1: "?rows \<noteq> []" by simp
  have h2: "\<not> (length ?rows = 1 \<and> \<not> truthy_key (row_key (hd ?rows)))" by simp
  have h3: "list_all (\<lambda>r. row_key r \<noteq> Some ''__proto__'') ?rows" by simp
  have h4: "list_all (\<lambda>r. safe_scalar (row_value r)) ?rows" by simp
  have r: "rows_object ?rows = [(''a'', JNum 1), (''c'', JStr ''s'')]"
    by code_simp
  from normalizeNodeData_reparses[OF h1 h2 h3 h4]
  have "JSON_parse (normalizeNodeData ?rows) = Returns (Obj (rows_object ?rows))"
    by blast
  then show ?thesis by (simp only: r)
qed

text \<open>
  Claim C7 as stated fails for a single row whose key is the empty string: the row has a
  key, yet the result is the bare text of its value, which \<^verbatim>\<open>JSON.parse\<close> reads as a
  number and not as a mapping. In a longer sequence the row with the empty key is left out
  of the mapping.
\<close>

theorem normalizeNodeData_lone_empty_key:
  "normalizeNodeData [\<lparr>row_key = Some [], row_value = SNum 1, row_type = ''number''\<rparr>] = ''1''
   \<and> JSON_parse ''1'' = Returns (JNum 1)
   \<and> JSON_parse (normalizeNodeData
         [\<lparr>row_key = Some [], row_value = SNum 1, row_type = ''number''\<rparr>,
          \<lparr>row_key = Some ''a'', row_value = SNum 2, row_type = ''number''\<rparr>])
       = Returns (Obj [(''a'', JNum 2)])"
proof -
  have a: "normalizeNodeData [\<lparr>row_key = Some [], row_value = SNum 1, row_type = ''number''\<rparr>] = ''1''"
    by code_simp
  have b: "JSON_parse ''1'' = Returns (JNum 1)"
    by code_simp
  have c: "JSON_parse (normalizeNodeData
         [\<lparr>row_key = Some [], row_value = SNum 1, row_type = ''number''\<rparr>,
          \<lparr>row_key = Some ''a'', row_value = SNum 2, row_type = ''number''\<rparr>])
       = Returns (Obj [(''a'', JNum 2)])"
    by code_simp
  from a b c show ?thesis by blast
qed

subsection \<open>Saving an edited text that is not JSON\<close>
























text \<open>
  A slot that holds an object is outside the statement above. There the merge loop runs
  over \<^verbatim>\<open>Object.keys\<close> of the string, the indices of its characters: for the document
  \<^verbatim>\<open>{"x": {"a": 1}}\<close>, the path \<^verbatim>\<open>["x"]\<close> and the edited text \<^verbatim>\<open>hi\<close> the object under
  \<^verbatim>\<open>x\<close> gains the fields \<^verbatim>\<open>"0": "h"\<close> and \<^verbatim>\<open>"1": "i"\<close>.
\<close>

theorem handleSave_string_into_object:
  \<open>let st = \<lparr>storedJson = ''{"x": {"a": 1}}'', contents = ''{"x": {"a": 1}}'', hasChanges = False,
              selectedNode = Some \<lparr>node_text = [\<lparr>row_key = Some ''a'', row_value = SNum 1, row_type = ''number''\<rparr>],
                                   node_path = Some [SKey ''x'']\<rparr>,
              editedValue = ''hi'', isEditing = True\<rparr>;
       doc = Obj [(''x'', Obj [(''0'', JStr ''h''), (''1'', JStr ''i''), (''a'', JNum 1)])]
   in JSON_parse (editedValue st) = Throws SyntaxError
    \<and> handleSave st
        = Returns (st\<lparr>storedJson := JSON_stringify doc, contents := JSON_stringify doc,
                      hasChanges := True, isEditing := False\<rparr>, ToastSuccess)
    \<and> JSON_parse (JSON_stringify doc) = Returns doc\<close>
  by code_simp

subsection \<open>Saving the text of a node that was not edited\<close>
























text \<open>
  A string whose text is JSON is outside the statement above: the node \<^verbatim>\<open>"1"\<close> of the
  document \<^verbatim>\<open>["1"]\<close> is shown as \<^verbatim>\<open>1\<close>, and saving that text stores the number.
\<close>

theorem handleSave_unedited_text_is_json:
  \<open>let nd = \<lparr>node_text = [\<lparr>row_key = None, row_value = SStr ''1'', row_type = ''string''\<rparr>],
              node_path = Some [SIdx 0]\<rparr>;
       st = \<lparr>storedJson = ''["1"]'', contents = [], hasChanges = False,
              selectedNode = None, editedValue = [], isEditing = False\<rparr>;
       stored = Arr [Some (JNum 1)]
   in JSON_parse (storedJson st) = Returns (Arr [Some (JStr ''1'')])
    \<and> scalar_rows (node_text nd) (SStr ''1'')
    \<and> handleSave (on_select nd st)
        = Returns ((on_select nd st)\<lparr>storedJson := JSON_stringify stored, contents := JSON_stringify stored,
                                    hasChanges := True, isEditing := False\<rparr>, ToastSuccess)
    \<and> JSON_parse (JSON_stringify stored) = Returns stored\<close>
  by code_simp

end
